theory Spec2Isabelle
  imports Main "HOL-Library.AList"
begin

section \<open>Data model of the graph hierarchy\<close>

text \<open>
  Graph ids and node ids are Python hashables; they are strings here.  An attribute
  dictionary maps a name to a finite set of values.  A dictionary is an association list in
  insertion order (the order Python iterates it in); it is read with \<open>map_of\<close>.
\<close>

type_synonym gid = string
type_synonym node = string
type_synonym attrs = "(string \<times> string list) list"

record graph =
  nodes :: "(node \<times> attrs) list"
  edges :: "((node \<times> node) \<times> attrs) list"

type_synonym mapping = "(node \<times> node) list"
type_synonym relation = "(node \<times> node list) list"

text \<open>
  The hierarchy \<open>\<langle>G, T, R, A\<rangle>\<close>: graphs by id, typing edges with their homomorphism, relations
  (one stored entry per pair, the symmetric view is derived), each with its attributes.
\<close>

record hierarchy =
  graph_store :: "(gid \<times> graph \<times> attrs) list"
  typing_store :: "((gid \<times> gid) \<times> mapping \<times> attrs) list"
  relation_store :: "((gid \<times> gid) \<times> relation \<times> attrs) list"

datatype error =
  HierarchyError | InvalidHomomorphism | RewritingError | ReGraphError
  | KeyError | ValueError | IndexError | UnboundLocalError | RecursionError

subsection \<open>Accessors of the hierarchy\<close>

definition graphs :: "hierarchy \<Rightarrow> gid list" where
  "graphs H = map fst (graph_store H)"

definition typings :: "hierarchy \<Rightarrow> (gid \<times> gid) list" where
  "typings H = map fst (typing_store H)"

definition successors :: "hierarchy \<Rightarrow> gid \<Rightarrow> gid list" where
  "successors H g = map snd (filter (\<lambda>e. fst e = g) (typings H))"

definition predecessors :: "hierarchy \<Rightarrow> gid \<Rightarrow> gid list" where
  "predecessors H g = map fst (filter (\<lambda>e. snd e = g) (typings H))"

definition graphs_data :: "hierarchy \<Rightarrow> (gid \<times> attrs) list" where
  "graphs_data H = map (\<lambda>(g, gr, a). (g, a)) (graph_store H)"

definition typings_data :: "hierarchy \<Rightarrow> (gid \<times> gid \<times> attrs) list" where
  "typings_data H = map (\<lambda>((s, t), m, a). (s, t, a)) (typing_store H)"

text \<open>
  A relation is stored once and seen from both sides: \<open>relations\<close> lists the pair in both
  directions, and a lookup by \<open>(l, r)\<close> finds an entry stored as \<open>(r, l)\<close>.
\<close>

definition relations :: "hierarchy \<Rightarrow> (gid \<times> gid) list" where
  "relations H = concat (map (\<lambda>((u, v), r, a). [(u, v), (v, u)]) (relation_store H))"

definition relations_data :: "hierarchy \<Rightarrow> (gid \<times> gid \<times> attrs) list" where
  "relations_data H =
     concat (map (\<lambda>((u, v), r, a). [(u, v, a), (v, u, a)]) (relation_store H))"

definition get_graph_attrs :: "hierarchy \<Rightarrow> gid \<Rightarrow> attrs" where
  "get_graph_attrs H g = (case map_of (graph_store H) g of Some (gr, a) \<Rightarrow> a | None \<Rightarrow> [])"

definition get_typing_attrs :: "hierarchy \<Rightarrow> gid \<Rightarrow> gid \<Rightarrow> attrs" where
  "get_typing_attrs H s t =
     (case map_of (typing_store H) (s, t) of Some (m, a) \<Rightarrow> a | None \<Rightarrow> [])"

definition get_relation_attrs :: "hierarchy \<Rightarrow> gid \<Rightarrow> gid \<Rightarrow> attrs" where
  "get_relation_attrs H l r =
     (case map_of (relation_store H) (l, r) of
        Some (rel, a) \<Rightarrow> a
      | None \<Rightarrow> (case map_of (relation_store H) (r, l) of Some (rel, a) \<Rightarrow> a | None \<Rightarrow> []))"

text \<open>Equality of attribute dictionaries: the same names, each with the same set of values.\<close>

definition attrs_equal :: "attrs \<Rightarrow> attrs \<Rightarrow> bool" where
  "attrs_equal a b \<longleftrightarrow>
     set (map fst a) = set (map fst b) \<and>
     list_all (\<lambda>k. map_option set (map_of a k) = map_option set (map_of b k)) (map fst a)"

section \<open>Equality of hierarchies\<close>

text \<open>
  \<open>Hierarchy.__eq__\<close>: three loops over the components of \<open>self\<close>, each returning \<open>False\<close>
  at the first component that \<open>hierarchy\<close> lacks or holds with other attributes.  The
  skeleton's \<open>edges()\<close> are the typing edges.
\<close>

definition hierarchy_eq :: "hierarchy \<Rightarrow> hierarchy \<Rightarrow> bool" where
  "hierarchy_eq self hierarchy \<longleftrightarrow>
     list_all (\<lambda>(node, attrs).
        node \<in> set (graphs hierarchy) \<and> attrs_equal attrs (get_graph_attrs hierarchy node))
       (graphs_data self) \<and>
     list_all (\<lambda>(s, t, attrs).
        (s, t) \<in> set (typings hierarchy) \<and> attrs_equal attrs (get_typing_attrs hierarchy s t))
       (typings_data self) \<and>
     list_all (\<lambda>(n1, n2, attrs).
        ((n1, n2) \<in> set (relations hierarchy) \<or> (n2, n1) \<in> set (relations hierarchy)) \<and>
        attrs_equal attrs (get_relation_attrs hierarchy n1 n2))
       (relations_data self)"

text \<open>
  The claim's reading of the test: every graph, typing edge and relation of \<open>H1\<close> occurs in
  \<open>H2\<close> under the same id(s) with equal attributes.  Nothing is asked of \<open>H2\<close> beyond that.
\<close>

definition contained_in :: "hierarchy \<Rightarrow> hierarchy \<Rightarrow> bool" where
  "contained_in H1 H2 \<longleftrightarrow>
     (\<forall>(g, gr, a) \<in> set (graph_store H1).
        g \<in> fst ` set (graph_store H2) \<and> attrs_equal a (get_graph_attrs H2 g)) \<and>
     (\<forall>((s, t), m, a) \<in> set (typing_store H1).
        (s, t) \<in> fst ` set (typing_store H2) \<and> attrs_equal a (get_typing_attrs H2 s t)) \<and>
     (\<forall>((u, v), r, a) \<in> set (relation_store H1).
        ((u, v) \<in> fst ` set (relation_store H2) \<or> (v, u) \<in> fst ` set (relation_store H2)) \<and>
        attrs_equal a (get_relation_attrs H2 u v) \<and> attrs_equal a (get_relation_attrs H2 v u))"

definition empty_hierarchy :: hierarchy where
  "empty_hierarchy = \<lparr> graph_store = [], typing_store = [], relation_store = [] \<rparr>"

section \<open>Breadth-first enumeration\<close>

text \<open>
  \<open>bfs_tree\<close> of \<open>regraph/neo4j/hierarchies.py\<close>.  The \<open>while\<close> loop carries the current
  level and the result; a graph enters the next level when it is not in the result
  \<^emph>\<open>as it was when the level started\<close>: the result is extended only after the level is done.
\<close>

definition neighbours :: "hierarchy \<Rightarrow> bool \<Rightarrow> gid \<Rightarrow> gid list" where
  "neighbours H reverse g = (if reverse then predecessors H g else successors H g)"

definition next_level_of :: "hierarchy \<Rightarrow> bool \<Rightarrow> gid list \<Rightarrow> gid list \<Rightarrow> gid list" where
  "next_level_of H reverse current_level bfs_result =
     concat (map (\<lambda>g. filter (\<lambda>p. p \<notin> set bfs_result) (neighbours H reverse g)) current_level)"

definition hierarchy_ids :: "hierarchy \<Rightarrow> gid set" where
  "hierarchy_ids H = fst ` set (typings H) \<union> snd ` set (typings H)"

lemma neighbours_ids: "set (neighbours H reverse g) \<subseteq> hierarchy_ids H"
  by (auto simp: neighbours_def successors_def predecessors_def hierarchy_ids_def)

lemma next_level_ids:
  "set (next_level_of H reverse cur res) \<subseteq> hierarchy_ids H - set res"
  using neighbours_ids by (auto simp: next_level_of_def)

lemma finite_hierarchy_ids: "finite (hierarchy_ids H)"
  by (simp add: hierarchy_ids_def)

function bfs_loop :: "hierarchy \<Rightarrow> bool \<Rightarrow> gid list \<Rightarrow> gid list \<Rightarrow> gid list" where
  "bfs_loop H reverse current_level bfs_result =
     (if length current_level > 0
      then (let next_level = next_level_of H reverse current_level bfs_result
            in bfs_loop H reverse next_level (bfs_result @ next_level))
      else bfs_result)"
  by pat_completeness auto
termination
proof (relation "measures [\<lambda>(H, r, cur, res). card (hierarchy_ids H - set res),
                           \<lambda>(H, r, cur, res). length cur]")
  show "wf (measures [\<lambda>(H, r, cur, res). card (hierarchy_ids H - set res),
                      \<lambda>(H, r, cur, res). length cur])"
    by simp
next
  fix H :: hierarchy and reverse :: bool and current_level bfs_result next_level :: "gid list"
  assume cur: "0 < length current_level"
    and nl: "next_level = next_level_of H reverse current_level bfs_result"
  show "((H, reverse, next_level, bfs_result @ next_level),
         (H, reverse, current_level, bfs_result))
        \<in> measures [\<lambda>(H, r, cur, res). card (hierarchy_ids H - set res),
                     \<lambda>(H, r, cur, res). length cur]"
  proof (cases "next_level = []")
    case True
    with cur show ?thesis by simp
  next
    case False
    then obtain x where x: "x \<in> set next_level" by (cases next_level) auto
    with nl next_level_ids have xin: "x \<in> hierarchy_ids H - set bfs_result" by blast
    have "hierarchy_ids H - set (bfs_result @ next_level) \<subset> hierarchy_ids H - set bfs_result"
      using x xin by auto
    then have "card (hierarchy_ids H - set (bfs_result @ next_level))
               < card (hierarchy_ids H - set bfs_result)"
      by (intro psubset_card_mono) (simp_all add: finite_hierarchy_ids)
    then show ?thesis by simp
  qed
qed

declare bfs_loop.simps [simp del]

definition bfs_tree :: "hierarchy \<Rightarrow> gid \<Rightarrow> bool \<Rightarrow> gid list" where
  "bfs_tree H g reverse =
     (let current_level = neighbours H reverse g
      in bfs_loop H reverse current_level ([g] @ current_level))"

text \<open>A diamond: \<open>g\<close> is typed by \<open>a\<close> and \<open>b\<close>, both typed by \<open>c\<close>.\<close>

definition diamond :: hierarchy where
  "diamond = \<lparr> graph_store = [(''g'', \<lparr>nodes = [], edges = []\<rparr>, []),
                               (''a'', \<lparr>nodes = [], edges = []\<rparr>, []),
                               (''b'', \<lparr>nodes = [], edges = []\<rparr>, []),
                               (''c'', \<lparr>nodes = [], edges = []\<rparr>, [])],
               typing_store = [((''g'', ''a''), [], []), ((''g'', ''b''), [], []),
                               ((''a'', ''c''), [], []), ((''b'', ''c''), [], [])],
               relation_store = [] \<rparr>"

definition diamond_top :: hierarchy where
  "diamond_top = \<lparr> graph_store = [(''g'', \<lparr>nodes = [], edges = []\<rparr>, []),
                                   (''a'', \<lparr>nodes = [], edges = []\<rparr>, [])],
                   typing_store = [((''g'', ''a''), [], [])],
                   relation_store = [] \<rparr>"

text \<open>
  C9.  On the diamond the enumeration from \<open>g\<close> lists \<open>c\<close> twice: both \<open>a\<close> and \<open>b\<close> of the
  first level contribute it, since neither sees it in the result yet.  So a reachable graph
  need not occur exactly once.
\<close>

theorem bfs_tree_diamond_duplicate:
  "bfs_tree diamond ''g'' False = [''g'', ''a'', ''b'', ''c'', ''c'']"
  by (simp add: bfs_tree_def bfs_loop.simps next_level_of_def neighbours_def
      successors_def typings_def diamond_def)

section \<open>Dictionaries, loops and errors\<close>

text \<open>
  A Python exception is the \<open>Inl\<close> of a sum; \<open>then_do\<close> sequences two steps, and the loops
  \<open>for_each\<close> and \<open>fold_err\<close> stop at the first exception.  \<open>d[k]\<close> raises \<open>KeyError\<close> on a missing
  key.  \<open>d[k] = v\<close> keeps the position of an existing key and appends a new one
  (\<open>AList.update\<close>); \<open>d.update(e)\<close> assigns the items of \<open>e\<close> in order.
\<close>

definition then_do :: "error + 'a \<Rightarrow> ('a \<Rightarrow> error + 'b) \<Rightarrow> error + 'b" where
  "then_do m f = (case m of Inl e \<Rightarrow> Inl e | Inr x \<Rightarrow> f x)"

fun for_each :: "('a \<Rightarrow> error + unit) \<Rightarrow> 'a list \<Rightarrow> error + unit" where
  "for_each f [] = Inr ()"
| "for_each f (x # xs) = (case f x of Inl e \<Rightarrow> Inl e | Inr u \<Rightarrow> for_each f xs)"

fun fold_err :: "('a \<Rightarrow> 's \<Rightarrow> error + 's) \<Rightarrow> 'a list \<Rightarrow> 's \<Rightarrow> error + 's" where
  "fold_err f [] s = Inr s"
| "fold_err f (x # xs) s = (case f x s of Inl e \<Rightarrow> Inl e | Inr s' \<Rightarrow> fold_err f xs s')"

fun map_err :: "('a \<Rightarrow> error + 'b) \<Rightarrow> 'a list \<Rightarrow> error + 'b list" where
  "map_err f [] = Inr []"
| "map_err f (x # xs) =
     (case f x of Inl e \<Rightarrow> Inl e
      | Inr y \<Rightarrow> (case map_err f xs of Inl e \<Rightarrow> Inl e | Inr ys \<Rightarrow> Inr (y # ys)))"

definition lookup :: "('k \<times> 'v) list \<Rightarrow> 'k \<Rightarrow> error + 'v" where
  "lookup d k = (case map_of d k of None \<Rightarrow> Inl KeyError | Some v \<Rightarrow> Inr v)"

definition dict_set :: "('k \<times> 'v) list \<Rightarrow> 'k \<Rightarrow> 'v \<Rightarrow> ('k \<times> 'v) list" where
  "dict_set d k v = AList.update k v d"

definition dict_update :: "('k \<times> 'v) list \<Rightarrow> ('k \<times> 'v) list \<Rightarrow> ('k \<times> 'v) list" where
  "dict_update d e = fold (\<lambda>(k, v) acc. dict_set acc k v) e d"

definition dict_keys :: "('k \<times> 'v) list \<Rightarrow> 'k list" where
  "dict_keys d = map fst d"

section \<open>Rules and the tests of the category kernel\<close>

record rule =
  lhs :: graph
  p :: graph
  rhs :: graph
  p_lhs :: mapping
  p_rhs :: mapping

definition node_ids :: "graph \<Rightarrow> node list" where
  "node_ids G = map fst (nodes G)"

definition edge_ids :: "graph \<Rightarrow> (node \<times> node) list" where
  "edge_ids G = map fst (edges G)"

text \<open>
  Modelled from the spec: \<open>keys_by_value\<close> of \<open>regraph.utils\<close>, not under \<open>src/\<close>: the keys of a
  dictionary that hold a given value, so the preimages of a node under a map
  (``L-nodes with \<open>\<ge> 2\<close> preimages under \<open>p_lhs\<close>'').
\<close>

definition keys_by_value :: "('k \<times> 'v) list \<Rightarrow> 'v \<Rightarrow> 'k list" where
  "keys_by_value d v = map fst (filter (\<lambda>kv. snd kv = v) d)"

text \<open>
  Modelled from the spec: \<open>Rule.added_nodes\<close> of \<open>regraph.rules\<close>, not under \<open>src/\<close>:
  ``added nodes: present in R but not reached from P''.
\<close>

definition added_nodes :: "rule \<Rightarrow> node list" where
  "added_nodes r = filter (\<lambda>n. keys_by_value (p_rhs r) n = []) (node_ids (rhs r))"

text \<open>
  Modelled from the spec: \<open>compose\<close> of \<open>regraph.category_utils\<close>, not under \<open>src/\<close>: the
  composition of two maps given as dictionaries; a key whose image has no image is left out.
\<close>

definition compose :: "mapping \<Rightarrow> mapping \<Rightarrow> mapping" where
  "compose d1 d2 =
     concat (map (\<lambda>(k, v). case map_of d2 v of None \<Rightarrow> [] | Some w \<Rightarrow> [(k, w)]) d1)"

text \<open>
  Modelled from the spec: \<open>check_homomorphism\<close> and \<open>is_monic\<close> of \<open>regraph.category_utils\<close>, not
  under \<open>src/\<close>: ``a homomorphism is a total map that preserves edges and whose image
  attributes include the source attributes (attribute \<open>\<subseteq>\<close> on both nodes and edges)'', and a
  mono is a map under which no two nodes share an image.
\<close>

definition valid_attributes :: "attrs \<Rightarrow> attrs \<Rightarrow> bool" where
  "valid_attributes a b =
     list_all (\<lambda>(k, vs). case map_of b k of None \<Rightarrow> False | Some ws \<Rightarrow> set vs \<subseteq> set ws) a"

definition is_homomorphism :: "graph \<Rightarrow> graph \<Rightarrow> mapping \<Rightarrow> bool \<Rightarrow> bool" where
  "is_homomorphism source target m is_total \<longleftrightarrow>
     (if is_total then list_all (\<lambda>n. n \<in> set (dict_keys m)) (node_ids source) else True) \<and>
     list_all (\<lambda>(s, t). s \<in> set (node_ids source) \<and> t \<in> set (node_ids target)) m \<and>
     list_all (\<lambda>(s, t). case (map_of m s, map_of m t) of
                  (Some s', Some t') \<Rightarrow> (s', t') \<in> set (edge_ids target)
                | _ \<Rightarrow> True) (edge_ids source) \<and>
     list_all (\<lambda>(s, t). case (map_of (nodes source) s, map_of (nodes target) t) of
                  (Some a, Some b) \<Rightarrow> valid_attributes a b
                | _ \<Rightarrow> False) m \<and>
     list_all (\<lambda>((s, t), a). case (map_of m s, map_of m t) of
                  (Some s', Some t') \<Rightarrow>
                    (case map_of (edges target) (s', t') of
                       Some b \<Rightarrow> valid_attributes a b
                     | None \<Rightarrow> False)
                | _ \<Rightarrow> True) (edges source)"

definition check_homomorphism :: "graph \<Rightarrow> graph \<Rightarrow> mapping \<Rightarrow> bool \<Rightarrow> error + bool" where
  "check_homomorphism source target m is_total =
     (if is_homomorphism source target m is_total then Inr True else Inl InvalidHomomorphism)"

definition is_monic :: "mapping \<Rightarrow> bool" where
  "is_monic f \<longleftrightarrow> length (remdups (map fst f)) = length (remdups (map snd f))"

section \<open>Typings between graphs of the hierarchy\<close>

text \<open>
  \<open>get_typing\<close> builds the dictionary of a typing edge from the stored edge, a fresh
  dictionary at every call, empty when there is no such edge (as the graph-database backend
  under \<open>src/\<close> does).  \<open>get_graph\<close> of a graph that is not in the hierarchy raises.
\<close>

definition get_typing :: "hierarchy \<Rightarrow> gid \<Rightarrow> gid \<Rightarrow> mapping" where
  "get_typing H s t = (case map_of (typing_store H) (s, t) of Some (m, a) \<Rightarrow> m | None \<Rightarrow> [])"

definition get_graph :: "hierarchy \<Rightarrow> gid \<Rightarrow> error + graph" where
  "get_graph H g =
     (case map_of (graph_store H) g of Some (gr, a) \<Rightarrow> Inr gr | None \<Rightarrow> Inl HierarchyError)"

subsection \<open>Ancestors and descendants\<close>

text \<open>
  \<open>get_ancestors\<close> and \<open>get_descendants\<close> recurse along the typing edges; on a cyclic
  hierarchy the recursion does not end.  The recursion depth is the fuel here: \<open>None\<close> is
  a recursion that is cut off.  One round of the \<open>for\<close> loop of \<open>get_ancestors\<close> is
  \<open>ancestors_step\<close>, one of \<open>get_descendants\<close> is \<open>descendants_step\<close>.
\<close>

fun fold_opt :: "('a \<Rightarrow> 's \<Rightarrow> 's option) \<Rightarrow> 'a list \<Rightarrow> 's \<Rightarrow> 's option" where
  "fold_opt f [] s = Some s"
| "fold_opt f (x # xs) s = (case f x s of None \<Rightarrow> None | Some s' \<Rightarrow> fold_opt f xs s')"

definition merge_typing ::
  "(gid \<times> mapping) list \<Rightarrow> gid \<Rightarrow> mapping \<Rightarrow> (gid \<times> mapping) list" where
  "merge_typing d g m =
     (case map_of d g of
        Some cur \<Rightarrow> dict_set d g (dict_update cur m)
      | None \<Rightarrow> dict_set d g m)"

definition ancestors_step ::
  "gid \<Rightarrow> mapping \<Rightarrow> (gid \<times> mapping) list \<Rightarrow> (gid \<times> mapping) list \<Rightarrow> (gid \<times> mapping) list"
  where
  "ancestors_step pred typing pred_ancestors ancestors =
     (let ancestors1 = (if pred \<in> set (dict_keys ancestors)
                        then dict_update ancestors pred_ancestors
                        else dict_set ancestors pred typing)
      in fold (\<lambda>(anc, anc_typing) acc. merge_typing acc anc (compose anc_typing typing))
           pred_ancestors ancestors1)"

fun get_ancestors_fuel :: "nat \<Rightarrow> hierarchy \<Rightarrow> gid \<Rightarrow> (gid \<times> mapping) list option" where
  "get_ancestors_fuel 0 H graph_id = None"
| "get_ancestors_fuel (Suc n) H graph_id =
     fold_opt (\<lambda>pred ancestors.
        case get_ancestors_fuel n H pred of
          None \<Rightarrow> None
        | Some pred_ancestors \<Rightarrow>
            Some (ancestors_step pred (get_typing H pred graph_id) pred_ancestors ancestors))
       (predecessors H graph_id) []"

definition descendants_step ::
  "gid \<Rightarrow> mapping \<Rightarrow> (gid \<times> mapping) list \<Rightarrow> (gid \<times> mapping) list \<Rightarrow> (gid \<times> mapping) list"
  where
  "descendants_step typing mapping typing_descendants descendants =
     (let descendants1 = merge_typing descendants typing mapping
      in fold (\<lambda>(anc, typ) acc. merge_typing acc anc (compose mapping typ))
           typing_descendants descendants1)"

fun get_descendants_fuel :: "nat \<Rightarrow> hierarchy \<Rightarrow> gid \<Rightarrow> (gid \<times> mapping) list option" where
  "get_descendants_fuel 0 H graph_id = None"
| "get_descendants_fuel (Suc n) H graph_id =
     fold_opt (\<lambda>typing descendants.
        case get_descendants_fuel n H typing of
          None \<Rightarrow> None
        | Some typing_descendants \<Rightarrow>
            Some (descendants_step typing (get_typing H graph_id typing)
                    typing_descendants descendants))
       (successors H graph_id) []"

text \<open>
  Inside other operations the recursion is run with a depth that no acyclic hierarchy
  exceeds (a path without a repeated edge has at most as many edges as the hierarchy);
  a deeper recursion is Python's \<open>RecursionError\<close>.
\<close>

definition get_ancestors :: "hierarchy \<Rightarrow> gid \<Rightarrow> error + (gid \<times> mapping) list" where
  "get_ancestors H g =
     (case get_ancestors_fuel (Suc (length (typing_store H))) H g of
        None \<Rightarrow> Inl RecursionError | Some d \<Rightarrow> Inr d)"

definition get_descendants :: "hierarchy \<Rightarrow> gid \<Rightarrow> error + (gid \<times> mapping) list" where
  "get_descendants H g =
     (case get_descendants_fuel (Suc (length (typing_store H))) H g of
        None \<Rightarrow> Inl RecursionError | Some d \<Rightarrow> Inr d)"

subsection \<open>Paths of typings\<close>

text \<open>
  \<open>compose_path_typing\<close> (lines 934--972): the typing of the first edge, composed with the
  typing of each further edge in turn; \<open>path[1]\<close> of a shorter list raises \<open>IndexError\<close>.
\<close>

fun compose_along :: "hierarchy \<Rightarrow> mapping \<Rightarrow> gid \<Rightarrow> gid list \<Rightarrow> mapping" where
  "compose_along H homomorphism s [] = homomorphism"
| "compose_along H homomorphism s (t # rest) =
     compose_along H (compose homomorphism (get_typing H s t)) t rest"

fun path_typing :: "hierarchy \<Rightarrow> gid list \<Rightarrow> mapping" where
  "path_typing H (s # t # rest) = compose_along H (get_typing H s t) t rest"
| "path_typing H short = []"


text \<open>A path is a list of at least two graphs, each typed by the next.\<close>

fun is_path :: "(gid \<times> gid) list \<Rightarrow> gid list \<Rightarrow> bool" where
  "is_path E (s # t # rest) = ((s, t) \<in> set E \<and> (rest = [] \<or> is_path E (t # rest)))"
| "is_path E short = False"

text \<open>The paths from \<open>s\<close> to \<open>t\<close> with at most \<open>n\<close> edges.\<close>

fun paths_upto :: "nat \<Rightarrow> (gid \<times> gid) list \<Rightarrow> gid \<Rightarrow> gid \<Rightarrow> gid list list" where
  "paths_upto 0 E s t = []"
| "paths_upto (Suc n) E s t =
     (if (s, t) \<in> set E then [[s, t]] else []) @
     concat (map (\<lambda>x. map (\<lambda>q. s # q) (paths_upto n E x t))
               (remdups (map snd (filter (\<lambda>e. fst e = s) E))))"

section \<open>Structural mutation\<close>

text \<open>
  Modelled from the spec: \<open>add_graph\<close>, \<open>add_typing\<close> and \<open>add_relation\<close> are abstract in
  \<open>Hierarchy\<close>; their contracts are those of the spec's section 4.2 and of the docstrings of
  the abstract methods.  \<open>add_graph\<close> ``fails with Duplicate if id exists''.  \<open>add_typing\<close>
  fails when a graph is missing or the edge exists, with \<open>InvalidHomomorphism\<close> when the
  mapping is not a homomorphism, when the edge closes a cycle (the target reaches the
  source), and when some existing path from source to target composes to another map on
  the nodes of the source.  \<open>add_relation\<close> ``fails if either graph missing, if a relation
  already exists, or if any id in \<open>rel\<close> is out of range''.  A failing call changes nothing.
\<close>

definition add_graph :: "hierarchy \<Rightarrow> gid \<Rightarrow> graph \<Rightarrow> attrs \<Rightarrow> error + hierarchy" where
  "add_graph H graph_id G graph_attrs =
     (if graph_id \<in> set (graphs H) then Inl HierarchyError
      else Inr (H\<lparr>graph_store := graph_store H @ [(graph_id, G, graph_attrs)]\<rparr>))"

definition closes_cycle :: "hierarchy \<Rightarrow> gid \<Rightarrow> gid \<Rightarrow> bool" where
  "closes_cycle H source target \<longleftrightarrow>
     source = target \<or>
     paths_upto (length (typing_store H)) (typings H) target source \<noteq> []"

definition agrees_on :: "node list \<Rightarrow> mapping \<Rightarrow> mapping \<Rightarrow> bool" where
  "agrees_on ns m1 m2 = list_all (\<lambda>n. map_of m1 n = map_of m2 n) ns"

definition paths_commute :: "hierarchy \<Rightarrow> gid \<Rightarrow> gid \<Rightarrow> graph \<Rightarrow> mapping \<Rightarrow> bool" where
  "paths_commute H source target G mapping =
     list_all (\<lambda>path. agrees_on (node_ids G) (path_typing H path) mapping)
       (paths_upto (length (typing_store H)) (typings H) source target)"

definition add_typing ::
  "hierarchy \<Rightarrow> gid \<Rightarrow> gid \<Rightarrow> mapping \<Rightarrow> attrs \<Rightarrow> error + hierarchy" where
  "add_typing H source target mapping typing_attrs =
     then_do (get_graph H source) (\<lambda>Gs.
     then_do (get_graph H target) (\<lambda>Gt.
       if (source, target) \<in> set (typings H) then Inl HierarchyError
       else if \<not> is_homomorphism Gs Gt mapping True then Inl InvalidHomomorphism
       else if closes_cycle H source target then Inl HierarchyError
       else if \<not> paths_commute H source target Gs mapping then Inl HierarchyError
       else Inr (H\<lparr>typing_store :=
                     typing_store H @ [((source, target), mapping, typing_attrs)]\<rparr>)))"

definition relation_in_range :: "graph \<Rightarrow> graph \<Rightarrow> relation \<Rightarrow> bool" where
  "relation_in_range Gl Gr rel =
     list_all (\<lambda>(a, bs). a \<in> set (node_ids Gl) \<and> list_all (\<lambda>b. b \<in> set (node_ids Gr)) bs) rel"

definition add_relation ::
  "hierarchy \<Rightarrow> gid \<Rightarrow> gid \<Rightarrow> relation \<Rightarrow> attrs \<Rightarrow> error + hierarchy" where
  "add_relation H left right rel relation_attrs =
     then_do (get_graph H left) (\<lambda>Gl.
     then_do (get_graph H right) (\<lambda>Gr.
       if (left, right) \<in> set (relations H) then Inl HierarchyError
       else if \<not> relation_in_range Gl Gr rel then Inl HierarchyError
       else Inr (H\<lparr>relation_store :=
                     relation_store H @ [((left, right), rel, relation_attrs)]\<rparr>)))"

text \<open>
  The relation between two graphs as a dictionary from the nodes of the first; an entry
  stored from the other side is read backwards.
\<close>

definition inverse_relation :: "relation \<Rightarrow> relation" where
  "inverse_relation rel =
     fold (\<lambda>(a, bs) acc.
        fold (\<lambda>b acc. case map_of acc b of
                          None \<Rightarrow> dict_set acc b [a]
                        | Some as \<Rightarrow> dict_set acc b (as @ [a])) bs acc) rel []"

definition get_relation :: "hierarchy \<Rightarrow> gid \<Rightarrow> gid \<Rightarrow> relation" where
  "get_relation H l r =
     (case map_of (relation_store H) (l, r) of
        Some (rel, a) \<Rightarrow> rel
      | None \<Rightarrow> (case map_of (relation_store H) (r, l) of
                    Some (rel, a) \<Rightarrow> inverse_relation rel
                  | None \<Rightarrow> []))"

text \<open>\<open>adjacent_relations\<close> (lines 871--880).\<close>

definition adjacent_relations :: "hierarchy \<Rightarrow> gid \<Rightarrow> error + gid list" where
  "adjacent_relations H g =
     (if g \<notin> set (graphs H) then Inl HierarchyError
      else Inr (map snd (filter (\<lambda>lr. fst lr = g) (relations H))))"

text \<open>
  A step on the hierarchy that may raise after it has changed something returns the
  exception together with the hierarchy as it is then.
\<close>

fun fold_state ::
  "('a \<Rightarrow> 's \<Rightarrow> (error + unit) \<times> 's) \<Rightarrow> 'a list \<Rightarrow> 's \<Rightarrow> (error + unit) \<times> 's" where
  "fold_state f [] s = (Inr (), s)"
| "fold_state f (x # xs) s =
     (case f x s of (Inl e, s') \<Rightarrow> (Inl e, s') | (Inr u, s') \<Rightarrow> fold_state f xs s')"

definition atomic :: "error + 's \<Rightarrow> 's \<Rightarrow> (error + unit) \<times> 's" where
  "atomic r s = (case r of Inl e \<Rightarrow> (Inl e, s) | Inr s' \<Rightarrow> (Inr (), s'))"

text \<open>
  \<open>copy_graph\<close> of \<open>regraph/neo4j/hierarchies.py\<close> (lines 641--670): the new graph gets the
  attributes, nodes and edges of the old one, then for every graph to attach the typings
  to and from it and the relation with it are copied.
\<close>

definition attach_graph :: "gid \<Rightarrow> gid \<Rightarrow> gid \<Rightarrow> hierarchy \<Rightarrow> (error + unit) \<times> hierarchy" where
  "attach_graph graph_id new_graph_id g H =
     (case (if g \<in> set (successors H graph_id)
            then atomic (add_typing H new_graph_id g (get_typing H graph_id g) []) H
            else (Inr (), H)) of
        (Inl e, H1) \<Rightarrow> (Inl e, H1)
      | (Inr u, H1) \<Rightarrow>
          (case (if g \<in> set (predecessors H1 graph_id)
                 then atomic (add_typing H1 g new_graph_id (get_typing H1 g graph_id) []) H1
                 else (Inr (), H1)) of
             (Inl e, H2) \<Rightarrow> (Inl e, H2)
           | (Inr u, H2) \<Rightarrow>
               (case adjacent_relations H2 graph_id of
                  Inl e \<Rightarrow> (Inl e, H2)
                | Inr adjacent \<Rightarrow>
                    if g \<in> set adjacent
                    then atomic (add_relation H2 g new_graph_id (get_relation H2 g graph_id) []) H2
                    else (Inr (), H2))))"

definition copy_graph ::
  "gid \<Rightarrow> gid \<Rightarrow> gid list \<Rightarrow> hierarchy \<Rightarrow> (error + unit) \<times> hierarchy" where
  "copy_graph graph_id new_graph_id attach_graphs H =
     (if new_graph_id \<in> set (graphs H) then (Inl HierarchyError, H)
      else (case add_graph H new_graph_id
                   (case get_graph H graph_id of Inr G \<Rightarrow> G | Inl e \<Rightarrow> \<lparr>nodes = [], edges = []\<rparr>)
                   (get_graph_attrs H graph_id) of
              Inl e \<Rightarrow> (Inl e, H)
            | Inr H1 \<Rightarrow> fold_state (attach_graph graph_id new_graph_id) attach_graphs H1))"

text \<open>
  \<open>duplicate_subgraph\<close> (lines 1458--1502).  The third loop carries the hierarchy and the
  set \<open>visited\<close>; \<open>preds\<close> and \<open>sucs\<close> are computed when the round for \<open>g\<close> starts.
\<close>

definition copy_typing ::
  "(gid \<times> gid) list \<Rightarrow> gid \<Rightarrow> gid \<Rightarrow> hierarchy \<times> (gid \<times> gid) list
     \<Rightarrow> (error + unit) \<times> hierarchy \<times> (gid \<times> gid) list" where
  "copy_typing graph_dict s t = (\<lambda>(H, visited).
     case then_do (lookup graph_dict s) (\<lambda>s'.
          then_do (lookup graph_dict t) (\<lambda>t'.
            add_typing H s' t' (get_typing H s t) [])) of
       Inl e \<Rightarrow> (Inl e, H, visited)
     | Inr H' \<Rightarrow> (Inr (), H', (s, t) # visited))"

definition copy_typings_of ::
  "(gid \<times> gid) list \<Rightarrow> gid \<Rightarrow> hierarchy \<times> (gid \<times> gid) list
     \<Rightarrow> (error + unit) \<times> hierarchy \<times> (gid \<times> gid) list" where
  "copy_typings_of graph_dict g = (\<lambda>(H, visited).
     let preds = filter (\<lambda>p. p \<in> set (dict_keys graph_dict) \<and> (p, g) \<notin> set visited)
                   (predecessors H g);
         sucs = filter (\<lambda>p. p \<in> set (dict_keys graph_dict) \<and> (g, p) \<notin> set visited)
                  (successors H g)
     in case fold_state (\<lambda>s. copy_typing graph_dict g s) sucs (H, visited) of
          (Inl e, st) \<Rightarrow> (Inl e, st)
        | (Inr u, st) \<Rightarrow> fold_state (\<lambda>p. copy_typing graph_dict p g) preds st)"

definition duplicate_subgraph ::
  "hierarchy \<Rightarrow> (gid \<times> gid) list \<Rightarrow> gid list \<Rightarrow> (error + unit) \<times> hierarchy" where
  "duplicate_subgraph H graph_dict attach_graphs =
     (let old_graphs = graphs H
      in case for_each (\<lambda>(original, new).
                 if new \<in> set old_graphs then Inl HierarchyError else Inr ()) graph_dict of
           Inl e \<Rightarrow> (Inl e, H)
         | Inr u \<Rightarrow>
             (case fold_state (\<lambda>(original, new). copy_graph original new attach_graphs)
                     graph_dict H of
                (Inl e, H1) \<Rightarrow> (Inl e, H1)
              | (Inr u, H1) \<Rightarrow>
                  (case fold_state (copy_typings_of graph_dict) (dict_keys graph_dict) (H1, []) of
                     (r, H2, visited) \<Rightarrow> (r, H2))))"

section \<open>Stage 0: checking the rule, its instance and the control relations\<close>

type_synonym typing_relation = "(gid \<times> (node \<times> node list) list) list"

text \<open>
  Modelled from the spec: \<open>normalize_typing_relation\<close> of \<open>regraph.utils\<close>, not under \<open>src/\<close>:
  ``normalize \<open>p_typing\<close> (ancestor \<open>\<rightarrow>\<close> node \<open>\<rightarrow>\<close> set-of-P-nodes) and \<open>rhs_typing\<close>''.  A set of
  nodes is a list without repetition.
\<close>

definition normalize_typing_relation :: "typing_relation \<Rightarrow> typing_relation" where
  "normalize_typing_relation r = map (\<lambda>(g, t). (g, map (\<lambda>(k, vs). (k, remdups vs)) t)) r"

text \<open>The instance is a valid total homomorphism and a mono (lines 1657--1674).\<close>

definition check_instance :: "hierarchy \<Rightarrow> gid \<Rightarrow> rule \<Rightarrow> mapping \<Rightarrow> error + unit" where
  "check_instance H origin_id rule instance =
     then_do (get_graph H origin_id) (\<lambda>G.
       case check_homomorphism (lhs rule) G instance True of
         Inl e \<Rightarrow> (if e = InvalidHomomorphism then Inl RewritingError else Inl e)
       | Inr ok \<Rightarrow> (if \<not> is_monic instance then Inl RewritingError else Inr ()))"

text \<open>\<open>p_typing\<close> does not retype nodes (lines 1676--1689).\<close>

definition check_p_retype_node :: "mapping \<Rightarrow> rule \<Rightarrow> mapping \<Rightarrow> node \<Rightarrow> node \<Rightarrow> error + unit" where
  "check_p_retype_node graph_to_origin rule instance k vv =
     then_do (lookup graph_to_origin k) (\<lambda>x.
     then_do (lookup (p_lhs rule) vv) (\<lambda>l.
     then_do (lookup instance l) (\<lambda>y.
       if x \<noteq> y then Inl RewritingError else Inr ())))"

definition check_p_retype ::
  "hierarchy \<Rightarrow> gid \<Rightarrow> rule \<Rightarrow> mapping \<Rightarrow> typing_relation \<Rightarrow> error + unit" where
  "check_p_retype H origin_id rule instance p_typing =
     for_each (\<lambda>(graph_id, typing).
        let graph_to_origin = get_typing H graph_id origin_id
        in for_each (\<lambda>(k, v).
             for_each (\<lambda>vv. check_p_retype_node graph_to_origin rule instance k vv) v) typing)
       p_typing"

text \<open>
  Composability of \<open>p_typing\<close> (lines 1691--1743).  For a predecessor without an entry the
  loop over the entry of \<open>graph_id\<close> computes the flag \<open>canonical\<close>; the state of the scan is
  the flag and whether \<open>canonical_clones\<close> has been assigned, which the error message reads.
  The flag starts as \<open>False\<close> and the only assignment to it assigns \<open>False\<close>.
\<close>

fun canonical_scan ::
  "rule \<Rightarrow> (node \<times> node list) list \<Rightarrow> bool \<times> bool \<Rightarrow> error + bool \<times> bool" where
  "canonical_scan rule [] st = Inr st"
| "canonical_scan rule ((graph_n, p_nodes) # rest) (canonical, assigned) =
     (if length p_nodes > 0
      then then_do (lookup (p_lhs rule) (hd p_nodes)) (\<lambda>lhs_n.
             let canonical_clones = keys_by_value (p_lhs rule) lhs_n
             in canonical_scan rule rest
                  (if set p_nodes = set canonical_clones then False else canonical, True))
      else canonical_scan rule rest (canonical, assigned))"

definition check_canonical :: "rule \<Rightarrow> (node \<times> node list) list \<Rightarrow> error + unit" where
  "check_canonical rule typing =
     then_do (canonical_scan rule typing (False, False)) (\<lambda>(canonical, assigned).
       if \<not> canonical
       then (if assigned then Inl RewritingError else Inl UnboundLocalError)
       else Inr ())"

definition check_successor_composable ::
  "typing_relation \<Rightarrow> gid \<Rightarrow> mapping \<Rightarrow> (node \<times> node list) \<Rightarrow> error + unit" where
  "check_successor_composable p_typing suc suc_typing = (\<lambda>(graph_n, p_nodes).
     then_do (lookup suc_typing graph_n) (\<lambda>suc_n.
       case map_of p_typing suc of
         None \<Rightarrow> Inr ()
       | Some suc_entry \<Rightarrow>
           (case map_of suc_entry suc_n of
              None \<Rightarrow> Inr ()
            | Some suc_p_nodes \<Rightarrow>
                if \<not> set p_nodes \<subseteq> set suc_p_nodes then Inl RewritingError else Inr ())))"

definition check_p_composable :: "hierarchy \<Rightarrow> rule \<Rightarrow> typing_relation \<Rightarrow> error + unit" where
  "check_p_composable H rule p_typing =
     for_each (\<lambda>(graph_id, typing).
        then_do (for_each (\<lambda>pred.
                   if pred \<notin> set (dict_keys p_typing) then check_canonical rule typing
                   else Inr ())
                 (predecessors H graph_id)) (\<lambda>u.
        for_each (\<lambda>suc.
           for_each (check_successor_composable p_typing suc (get_typing H graph_id suc)) typing)
         (successors H graph_id)))
       p_typing"

text \<open>
  Auto-completion of \<open>rhs_typing\<close> (lines 1745--1791).  The state of the loops is
  \<open>rhs_typing\<close> and \<open>new_rhs_typing\<close>: an entry of a descendant that is completed in place is
  the same dictionary in both, so both are assigned.
\<close>

definition image_set :: "mapping \<Rightarrow> node list \<Rightarrow> error + node list" where
  "image_set descendant_typing graph_ns =
     then_do (map_err (lookup descendant_typing) graph_ns) (\<lambda>imgs. Inr (remdups imgs))"

definition composed_rhs_typing ::
  "mapping \<Rightarrow> (node \<times> node list) list \<Rightarrow> error + (node \<times> node list) list" where
  "composed_rhs_typing descendant_typing typing =
     map_err (\<lambda>(rhs_n, graph_ns).
        then_do (image_set descendant_typing graph_ns) (\<lambda>s. Inr (rhs_n, s))) typing"

definition complete_rhs_node ::
  "gid \<Rightarrow> mapping \<Rightarrow> (node \<times> node list) \<Rightarrow> typing_relation \<times> typing_relation
     \<Rightarrow> error + typing_relation \<times> typing_relation" where
  "complete_rhs_node descendant descendant_typing = (\<lambda>(rhs_n, graph_ns) (rhs_typing, new_rhs_typing).
     then_do (lookup rhs_typing descendant) (\<lambda>descendant_rhs_typing.
       case map_of descendant_rhs_typing rhs_n of
         Some descendant_ns \<Rightarrow>
           then_do (for_each (\<lambda>graph_n.
                      then_do (lookup descendant_typing graph_n) (\<lambda>n.
                        if n \<notin> set descendant_ns then Inl RewritingError else Inr ()))
                    graph_ns) (\<lambda>u. Inr (rhs_typing, new_rhs_typing))
       | None \<Rightarrow>
           then_do (image_set descendant_typing graph_ns) (\<lambda>s.
             let d = dict_set descendant_rhs_typing rhs_n s
             in Inr (dict_set rhs_typing descendant d, dict_set new_rhs_typing descendant d))))"

definition complete_descendant ::
  "(node \<times> node list) list \<Rightarrow> (gid \<times> mapping) \<Rightarrow> typing_relation \<times> typing_relation
     \<Rightarrow> error + typing_relation \<times> typing_relation" where
  "complete_descendant typing = (\<lambda>(descendant, descendant_typing) (rhs_typing, new_rhs_typing).
     if descendant \<notin> set (dict_keys rhs_typing)
     then then_do (composed_rhs_typing descendant_typing typing) (\<lambda>t.
            Inr (rhs_typing, dict_set new_rhs_typing descendant t))
     else fold_err (complete_rhs_node descendant descendant_typing) typing
            (rhs_typing, new_rhs_typing))"

definition autocomplete_rhs_typing :: "hierarchy \<Rightarrow> typing_relation \<Rightarrow> error + typing_relation" where
  "autocomplete_rhs_typing H rhs_typing0 =
     then_do (fold_err (\<lambda>graph_id (rhs_typing, new_rhs_typing).
                then_do (lookup rhs_typing graph_id) (\<lambda>typing.
                then_do (get_descendants H graph_id) (\<lambda>ds.
                  fold_err (complete_descendant typing) ds (rhs_typing, new_rhs_typing))))
              (dict_keys rhs_typing0) (rhs_typing0, []))
       (\<lambda>(rhs_typing, new_rhs_typing). Inr (dict_update rhs_typing new_rhs_typing))"

text \<open>\<open>rhs_typing\<close> does not retype nodes (lines 1793--1810).\<close>

definition check_rhs_retype ::
  "hierarchy \<Rightarrow> gid \<Rightarrow> rule \<Rightarrow> mapping \<Rightarrow> typing_relation \<Rightarrow> error + unit" where
  "check_rhs_retype H origin_id rule instance rhs_typing =
     for_each (\<lambda>(graph_id, typing).
        let origin_to_graph = get_typing H origin_id graph_id
        in for_each (\<lambda>(k, v).
             let p_nodes = keys_by_value (p_rhs rule) k
             in if length p_nodes > 0
                then then_do (map_err (\<lambda>p_node.
                                 then_do (lookup (p_lhs rule) p_node) (\<lambda>l.
                                 then_do (lookup instance l) (\<lambda>g. lookup origin_to_graph g)))
                               p_nodes) (\<lambda>graph_nodes.
                       if set graph_nodes \<noteq> set v then Inl RewritingError else Inr ())
                else Inr ()) typing)
       rhs_typing"

text \<open>Strict rewriting: every added node is typed in every descendant (lines 1812--1831).\<close>

definition check_strict_descendant :: "rule \<Rightarrow> typing_relation \<Rightarrow> gid \<Rightarrow> error + unit" where
  "check_strict_descendant rule rhs_typing desc =
     (case map_of rhs_typing desc of
        None \<Rightarrow> Inl RewritingError
      | Some entry \<Rightarrow>
          for_each (\<lambda>rhs_n.
             case map_of entry rhs_n of
               None \<Rightarrow> Inl RewritingError
             | Some vs \<Rightarrow> (if length vs \<noteq> 1 then Inl RewritingError else Inr ()))
           (added_nodes rule))"

definition check_strict ::
  "hierarchy \<Rightarrow> gid \<Rightarrow> rule \<Rightarrow> typing_relation \<Rightarrow> bool \<Rightarrow> error + unit" where
  "check_strict H origin_id rule rhs_typing strict =
     (if strict
      then (if length (added_nodes rule) > 0
            then then_do (get_descendants H origin_id) (\<lambda>ds.
                   for_each (check_strict_descendant rule rhs_typing) (dict_keys ds))
            else Inr ())
      else Inr ())"

text \<open>
  \<open>_check_rule_instance_typing\<close>: the normalisation and the checks in the order of the source.
  \<open>check_before_strict\<close> is the function up to line 1810.
\<close>

definition instance_or_identity :: "rule \<Rightarrow> mapping option \<Rightarrow> mapping" where
  "instance_or_identity rule instance0 =
     (case instance0 of None \<Rightarrow> map (\<lambda>n. (n, n)) (node_ids (lhs rule)) | Some i \<Rightarrow> i)"

definition check_before_strict ::
  "hierarchy \<Rightarrow> gid \<Rightarrow> rule \<Rightarrow> mapping option \<Rightarrow> typing_relation option
     \<Rightarrow> typing_relation option \<Rightarrow> error + mapping \<times> typing_relation \<times> typing_relation" where
  "check_before_strict H origin_id rule instance0 p_typing0 rhs_typing0 =
     (let instance = instance_or_identity rule instance0;
          p_typing = (case p_typing0 of None \<Rightarrow> [] | Some t \<Rightarrow> normalize_typing_relation t);
          rhs_typing = (case rhs_typing0 of None \<Rightarrow> [] | Some t \<Rightarrow> normalize_typing_relation t)
      in then_do (check_instance H origin_id rule instance) (\<lambda>u.
         then_do (check_p_retype H origin_id rule instance p_typing) (\<lambda>u.
         then_do (check_p_composable H rule p_typing) (\<lambda>u.
         then_do (autocomplete_rhs_typing H rhs_typing) (\<lambda>rhs_typing.
         then_do (check_rhs_retype H origin_id rule instance rhs_typing) (\<lambda>u.
           Inr (instance, p_typing, rhs_typing)))))))"

definition check_rule_instance_typing ::
  "hierarchy \<Rightarrow> gid \<Rightarrow> rule \<Rightarrow> mapping option \<Rightarrow> typing_relation option
     \<Rightarrow> typing_relation option \<Rightarrow> bool \<Rightarrow> error + mapping \<times> typing_relation \<times> typing_relation"
  where
  "check_rule_instance_typing H origin_id rule instance0 p_typing0 rhs_typing0 strict =
     then_do (check_before_strict H origin_id rule instance0 p_typing0 rhs_typing0)
       (\<lambda>(instance, p_typing, rhs_typing).
          then_do (check_strict H origin_id rule rhs_typing strict) (\<lambda>u.
            Inr (instance, p_typing, rhs_typing)))"

section \<open>Rewriting\<close>

text \<open>
  The four stages after the check are the backend's: the restrictive and the expansive
  rewrite are abstract methods, and the two propagations run the backend's abstract
  propagation methods and the category kernel.  They are parameters here, each a step on
  the hierarchy that may raise.  \<open>rewrite\<close> returns the result (or the exception) and the
  hierarchy as it is left.
\<close>

record backend =
  restrictive_rewrite ::
    "gid \<Rightarrow> rule \<Rightarrow> mapping \<Rightarrow> hierarchy \<Rightarrow> (error + mapping \<times> mapping) \<times> hierarchy"
  propagate_backward ::
    "gid \<Rightarrow> rule \<Rightarrow> mapping \<Rightarrow> mapping \<Rightarrow> mapping \<Rightarrow> typing_relation \<Rightarrow> hierarchy
       \<Rightarrow> (error + unit) \<times> hierarchy"
  expansive_rewrite ::
    "gid \<Rightarrow> rule \<Rightarrow> mapping \<Rightarrow> hierarchy \<Rightarrow> (error + mapping \<times> mapping) \<times> hierarchy"
  propagate_forward ::
    "gid \<Rightarrow> rule \<Rightarrow> mapping \<Rightarrow> mapping \<Rightarrow> mapping \<Rightarrow> mapping \<Rightarrow> typing_relation \<Rightarrow> hierarchy
       \<Rightarrow> (error + unit) \<times> hierarchy"

definition rewrite ::
  "backend \<Rightarrow> hierarchy \<Rightarrow> gid \<Rightarrow> rule \<Rightarrow> mapping option \<Rightarrow> typing_relation option
     \<Rightarrow> typing_relation option \<Rightarrow> bool \<Rightarrow> (error + mapping) \<times> hierarchy" where
  "rewrite B H graph_id rule instance0 p_typing0 rhs_typing0 strict =
     (case check_rule_instance_typing H graph_id rule instance0 p_typing0 rhs_typing0 strict of
        Inl e \<Rightarrow> (Inl e, H)
      | Inr (instance, p_typing, rhs_typing) \<Rightarrow>
          (case restrictive_rewrite B graph_id rule instance H of
             (Inl e, H1) \<Rightarrow> (Inl e, H1)
           | (Inr (p_g_m, g_m_g), H1) \<Rightarrow>
               (case propagate_backward B graph_id rule instance p_g_m g_m_g p_typing H1 of
                  (Inl e, H2) \<Rightarrow> (Inl e, H2)
                | (Inr u, H2) \<Rightarrow>
                    (case expansive_rewrite B graph_id rule p_g_m H2 of
                       (Inl e, H3) \<Rightarrow> (Inl e, H3)
                     | (Inr (rhs_g_prime, g_m_g_prime), H3) \<Rightarrow>
                         (case propagate_forward B graph_id rule instance p_g_m rhs_g_prime
                                 g_m_g_prime rhs_typing H3 of
                            (Inl e, H4) \<Rightarrow> (Inl e, H4)
                          | (Inr u, H4) \<Rightarrow> (Inr rhs_g_prime, H4))))))"



text \<open>
  The claim's words for a descendant under strict rewriting: it has no \<open>rhs_typing\<close> entry at
  all, or an entry in which some added node is missing or not mapped to a singleton.
\<close>

definition untyped_in :: "rule \<Rightarrow> typing_relation \<Rightarrow> gid \<Rightarrow> bool" where
  "untyped_in rule rhs_typing desc \<longleftrightarrow>
     (case map_of rhs_typing desc of
        None \<Rightarrow> True
      | Some entry \<Rightarrow>
          list_ex (\<lambda>rhs_n. case map_of entry rhs_n of None \<Rightarrow> True | Some vs \<Rightarrow> length vs \<noteq> 1)
            (added_nodes rule))"

section \<open>Example hierarchies and rules\<close>

definition plain_graph :: "node list \<Rightarrow> graph" where
  "plain_graph ns = \<lparr> nodes = map (\<lambda>n. (n, [])) ns, edges = [] \<rparr>"

text \<open>
  A chain \<open>top \<rightarrow> mid \<rightarrow> base \<rightarrow> low \<rightarrow> floor\<close> of typings with the composed typing
  \<open>base \<rightarrow> floor\<close> as a further edge.
\<close>

definition chain :: hierarchy where
  "chain = \<lparr> graph_store = [(''top'', plain_graph [''t''], []), (''mid'', plain_graph [''m''], []),
                             (''base'', plain_graph [''g'', ''h''], []),
                             (''low'', plain_graph [''x''], []),
                             (''floor'', plain_graph [''z''], [])],
             typing_store = [((''top'', ''mid''), [(''t'', ''m'')], []),
                             ((''mid'', ''base''), [(''m'', ''g'')], []),
                             ((''base'', ''low''), [(''g'', ''x''), (''h'', ''x'')], []),
                             ((''low'', ''floor''), [(''x'', ''z'')], []),
                             ((''base'', ''floor''), [(''g'', ''z''), (''h'', ''z'')], [])],
             relation_store = [] \<rparr>"

text \<open>A rule that clones \<open>l\<close> into \<open>p1\<close> and \<open>p2\<close>, a rule that adds \<open>c\<close>, a two-node pattern.\<close>

definition clone_rule :: rule where
  "clone_rule = \<lparr> lhs = plain_graph [''l''], p = plain_graph [''p1'', ''p2''],
                  rhs = plain_graph [''p1'', ''p2''],
                  p_lhs = [(''p1'', ''l''), (''p2'', ''l'')],
                  p_rhs = [(''p1'', ''p1''), (''p2'', ''p2'')] \<rparr>"

definition add_rule :: rule where
  "add_rule = \<lparr> lhs = plain_graph [''l''], p = plain_graph [''l''],
                rhs = plain_graph [''l'', ''c''],
                p_lhs = [(''l'', ''l'')], p_rhs = [(''l'', ''l'')] \<rparr>"

definition pair_rule :: rule where
  "pair_rule = \<lparr> lhs = plain_graph [''l1'', ''l2''], p = plain_graph [''l1'', ''l2''],
                 rhs = plain_graph [''l1'', ''l2''],
                 p_lhs = [(''l1'', ''l1''), (''l2'', ''l2'')],
                 p_rhs = [(''l1'', ''l1''), (''l2'', ''l2'')] \<rparr>"

text \<open>A backend whose stages change nothing.\<close>

definition idle_backend :: backend where
  "idle_backend = \<lparr> restrictive_rewrite = (\<lambda>g r i H. (Inr (i, i), H)),
                     propagate_backward = (\<lambda>g r i pm mg pt H. (Inr (), H)),
                     expansive_rewrite = (\<lambda>g r pm H. (Inr (pm, pm), H)),
                     propagate_forward = (\<lambda>g r i pm rg mg rt H. (Inr (), H)) \<rparr>"

section \<open>The rule hierarchy of a rewrite\<close>

text \<open>
  \<open>get_rule_propagations\<close> (lines 974--1230).  The result and the dictionaries the loops
  fill are the fields of \<open>propagation\<close>.  The bodies of the three loops call \<open>pullback\<close>,
  \<open>image_factorization\<close> and \<open>pushout\<close> of the category kernel, which is not under \<open>src/\<close>;
  they are parameters.  What is modelled is the iteration: each loop iterates over a
  dictionary, which yields its keys, and unpacks each key into two variables
  (\<open>for ancestor, origin_typing in ancestors\<close>).  Unpacking a string succeeds exactly when
  it has two characters.
\<close>

record propagation =
  rules :: "(gid \<times> rule) list"
  rule_homomorphisms :: "((gid \<times> gid) \<times> mapping \<times> mapping \<times> mapping) list"
  instances :: "(gid \<times> mapping) list"
  l_g_ls :: "(gid \<times> mapping) list"
  p_g_ps :: "(gid \<times> mapping) list"
  l_l_ts :: "(gid \<times> mapping) list"
  p_p_ts :: "(gid \<times> mapping) list"
  r_r_ts :: "(gid \<times> mapping) list"

record kernel =
  lift_rule ::
    "hierarchy \<Rightarrow> gid \<Rightarrow> rule \<Rightarrow> mapping \<Rightarrow> typing_relation \<Rightarrow> string \<Rightarrow> string
       \<Rightarrow> propagation \<Rightarrow> error + propagation"
  project_rule ::
    "hierarchy \<Rightarrow> gid \<Rightarrow> rule \<Rightarrow> mapping \<Rightarrow> typing_relation \<Rightarrow> string \<Rightarrow> string
       \<Rightarrow> propagation \<Rightarrow> error + propagation"
  relate_rules ::
    "hierarchy \<Rightarrow> gid \<Rightarrow> rule \<Rightarrow> (gid \<times> mapping) list \<Rightarrow> (gid \<times> mapping) list
       \<Rightarrow> string \<Rightarrow> string \<Rightarrow> propagation \<Rightarrow> error + propagation"

definition unpack_pair :: "string \<Rightarrow> error + string \<times> string" where
  "unpack_pair key = (case key of [a, b] \<Rightarrow> Inr ([a], [b]) | _ \<Rightarrow> Inl ValueError)"

definition for_unpacked ::
  "(string \<Rightarrow> string \<Rightarrow> 's \<Rightarrow> error + 's) \<Rightarrow> string list \<Rightarrow> 's \<Rightarrow> error + 's" where
  "for_unpacked body keys st =
     fold_err (\<lambda>key st. then_do (unpack_pair key) (\<lambda>(a, b). body a b st)) keys st"

definition get_rule_propagations ::
  "kernel \<Rightarrow> hierarchy \<Rightarrow> gid \<Rightarrow> rule \<Rightarrow> mapping option \<Rightarrow> typing_relation option
     \<Rightarrow> typing_relation option \<Rightarrow> error + propagation" where
  "get_rule_propagations K H origin_id rule instance0 p_typing0 rhs_typing0 =
     then_do (check_rule_instance_typing H origin_id rule instance0 p_typing0 rhs_typing0 False)
       (\<lambda>(instance, p_typing, rhs_typing).
     let st0 = \<lparr> rules = [(origin_id, rule)], rule_homomorphisms = [],
                 instances = [(origin_id, instance)],
                 l_g_ls = [], p_g_ps = [], l_l_ts = [], p_p_ts = [], r_r_ts = [] \<rparr>
     in then_do (get_ancestors H origin_id) (\<lambda>ancestors.
        then_do (get_descendants H origin_id) (\<lambda>descendants.
        then_do (for_unpacked (lift_rule K H origin_id rule instance p_typing)
                   (dict_keys ancestors) st0) (\<lambda>st1.
        then_do (for_unpacked (project_rule K H origin_id rule instance rhs_typing)
                   (dict_keys descendants) st1) (\<lambda>st2.
        for_unpacked (relate_rules K H origin_id rule ancestors descendants)
          (dict_keys (rules st2)) st2)))))"

section \<open>Equality is containment\<close>

lemma both_ways_mem:
  "(x, y) \<in> set (concat (map (\<lambda>((u, v), r, a). [(u, v), (v, u)]) xs)) \<longleftrightarrow>
     (x, y) \<in> fst ` set xs \<or> (y, x) \<in> fst ` set xs"
  by (induction xs) (auto simp: image_iff)

lemma relations_mem:
  "(x, y) \<in> set (relations H) \<longleftrightarrow>
     (x, y) \<in> fst ` set (relation_store H) \<or> (y, x) \<in> fst ` set (relation_store H)"
  unfolding relations_def by (rule both_ways_mem)

lemma both_ways_all:
  "list_all P (concat (map (\<lambda>((u, v), r, a). [(u, v, a), (v, u, a)]) xs)) \<longleftrightarrow>
     (\<forall>((u, v), r, a) \<in> set xs. P (u, v, a) \<and> P (v, u, a))"
  by (induction xs) auto

lemma relations_data_all:
  "list_all P (relations_data H) \<longleftrightarrow>
     (\<forall>((u, v), r, a) \<in> set (relation_store H). P (u, v, a) \<and> P (v, u, a))"
  unfolding relations_data_def by (rule both_ways_all)

lemma hierarchy_eq_iff_contained: "hierarchy_eq H1 H2 \<longleftrightarrow> contained_in H1 H2"
proof -
  have g: "list_all (\<lambda>(node, attrs).
        node \<in> set (graphs H2) \<and> attrs_equal attrs (get_graph_attrs H2 node)) (graphs_data H1)
      \<longleftrightarrow> (\<forall>(g, gr, a) \<in> set (graph_store H1).
        g \<in> fst ` set (graph_store H2) \<and> attrs_equal a (get_graph_attrs H2 g))"
    by (auto simp: list_all_iff graphs_data_def graphs_def)
  have t: "list_all (\<lambda>(s, t, attrs).
        (s, t) \<in> set (typings H2) \<and> attrs_equal attrs (get_typing_attrs H2 s t)) (typings_data H1)
      \<longleftrightarrow> (\<forall>((s, t), m, a) \<in> set (typing_store H1).
        (s, t) \<in> fst ` set (typing_store H2) \<and> attrs_equal a (get_typing_attrs H2 s t))"
    by (auto simp: list_all_iff typings_data_def typings_def)
  have r: "list_all (\<lambda>(n1, n2, attrs).
        ((n1, n2) \<in> set (relations H2) \<or> (n2, n1) \<in> set (relations H2)) \<and>
        attrs_equal attrs (get_relation_attrs H2 n1 n2)) (relations_data H1)
      \<longleftrightarrow> (\<forall>((u, v), r, a) \<in> set (relation_store H1).
        ((u, v) \<in> fst ` set (relation_store H2) \<or> (v, u) \<in> fst ` set (relation_store H2)) \<and>
        attrs_equal a (get_relation_attrs H2 u v) \<and> attrs_equal a (get_relation_attrs H2 v u))"
    unfolding relations_data_all relations_mem by (auto split: prod.splits)
  show ?thesis unfolding hierarchy_eq_def contained_in_def g t r ..
qed

text \<open>
  C10.  \<open>__eq__\<close> holds whenever everything of \<open>H1\<close> occurs in \<open>H2\<close> (it holds exactly then), and
  it is not symmetric: the empty hierarchy equals the diamond, whose graphs and typings it
  lacks, and the diamond does not equal the empty hierarchy.
\<close>

theorem hierarchy_eq_one_sided:
  "(contained_in H1 H2 \<longrightarrow> hierarchy_eq H1 H2) \<and>
   (hierarchy_eq H1 H2 \<longrightarrow> contained_in H1 H2) \<and>
   hierarchy_eq empty_hierarchy diamond \<and>
   graphs diamond \<noteq> graphs empty_hierarchy \<and>
   typings diamond \<noteq> typings empty_hierarchy \<and>
   \<not> hierarchy_eq diamond empty_hierarchy"
proof -
  have "hierarchy_eq empty_hierarchy diamond"
    by (simp add: hierarchy_eq_def empty_hierarchy_def graphs_data_def typings_data_def
        relations_data_def)
  moreover have "\<not> hierarchy_eq diamond empty_hierarchy"
    by (simp add: hierarchy_eq_def empty_hierarchy_def diamond_def graphs_data_def graphs_def)
  moreover have "graphs diamond \<noteq> graphs empty_hierarchy"
    by (simp add: graphs_def diamond_def empty_hierarchy_def)
  moreover have "typings diamond \<noteq> typings empty_hierarchy"
    by (simp add: typings_def diamond_def empty_hierarchy_def)
  ultimately show ?thesis using hierarchy_eq_iff_contained by blast
qed

theorem hierarchy_eq_one_sided_witness:
  "contained_in diamond_top diamond \<and> hierarchy_eq diamond_top diamond \<and>
   \<not> hierarchy_eq diamond diamond_top"
proof -
  have c: "contained_in diamond_top diamond"
    by (simp add: contained_in_def diamond_top_def diamond_def attrs_equal_def
        get_graph_attrs_def get_typing_attrs_def)
  have n: "\<not> hierarchy_eq diamond diamond_top"
    by (simp add: hierarchy_eq_def diamond_top_def diamond_def graphs_data_def graphs_def)
  from c n hierarchy_eq_one_sided [of diamond_top diamond] show ?thesis by blast
qed

section \<open>Stage 0 rejects before anything is rewritten\<close>

lemma then_do_Inl [simp]: "then_do (Inl e) f = Inl e"
  by (simp add: then_do_def)

lemma then_do_Inr [simp]: "then_do (Inr x) f = f x"
  by (simp add: then_do_def)

lemma for_each_cases:
  assumes "\<And>x. x \<in> set xs \<Longrightarrow> f x = Inr () \<or> f x = Inl E"
  shows "for_each f xs = (if \<exists>x\<in>set xs. f x = Inl E then Inl E else Inr ())"
  using assms
proof (induction xs)
  case Nil
  then show ?case by simp
next
  case (Cons x xs)
  have ih: "for_each f xs = (if \<exists>x\<in>set xs. f x = Inl E then Inl E else Inr ())"
    using Cons by simp
  have "f x = Inr () \<or> f x = Inl E" using Cons.prems by simp
  then show ?case
  proof
    assume "f x = Inr ()"
    then show ?thesis using ih by simp
  next
    assume "f x = Inl E"
    then show ?thesis by simp
  qed
qed

lemma check_instance_rejects:
  assumes "get_graph H origin_id = Inr G"
    and "\<not> is_homomorphism (lhs rule) G instance True \<or> \<not> is_monic instance"
  shows "check_instance H origin_id rule instance = Inl RewritingError"
  using assms by (auto simp: check_instance_def check_homomorphism_def)






lemma rewrite_check_fails:
  "check_rule_instance_typing H graph_id rule i0 p0 r0 strict = Inl e
   \<Longrightarrow> rewrite B H graph_id rule i0 p0 r0 strict = (Inl e, H)"
  by (simp add: rewrite_def)

lemma check_fails_at_instance:
  "check_instance H origin_id rule (instance_or_identity rule i0) = Inl e
   \<Longrightarrow> check_rule_instance_typing H origin_id rule i0 p0 r0 strict = Inl e"
  by (simp add: check_rule_instance_typing_def check_before_strict_def Let_def)


text \<open>
  C2.  When the instance (the identity on the left-hand side when none is given) is not a
  valid total homomorphism into the rewritten graph, or is not a mono, the check raises
  \<open>RewritingError\<close> and \<open>rewrite\<close> ends with that exception and the hierarchy it was given:
  no stage of the backend has run.
\<close>

theorem rewrite_rejects_invalid_instance:
  assumes "get_graph H graph_id = Inr G"
    and "\<not> is_homomorphism (lhs rule) G (instance_or_identity rule instance0) True
         \<or> \<not> is_monic (instance_or_identity rule instance0)"
  shows "check_rule_instance_typing H graph_id rule instance0 p_typing0 rhs_typing0 strict
           = Inl RewritingError
         \<and> rewrite B H graph_id rule instance0 p_typing0 rhs_typing0 strict
           = (Inl RewritingError, H)"
  using check_fails_at_instance [OF check_instance_rejects [OF assms]] rewrite_check_fails
  by blast

theorem rewrite_rejects_invalid_instance_witness:
  "get_graph chain ''base'' = Inr (plain_graph [''g'', ''h'']) \<and>
   \<not> is_monic [(''l1'', ''g''), (''l2'', ''g'')] \<and>
   rewrite idle_backend chain ''base'' pair_rule (Some [(''l1'', ''g''), (''l2'', ''g'')])
     None None False = (Inl RewritingError, chain)"
proof -
  have g: "get_graph chain ''base'' = Inr (plain_graph [''g'', ''h''])"
    by (simp add: get_graph_def chain_def)
  have m: "\<not> is_monic (instance_or_identity pair_rule (Some [(''l1'', ''g''), (''l2'', ''g'')]))"
    by (simp add: is_monic_def instance_or_identity_def)
  from rewrite_rejects_invalid_instance [OF g disjI2 [OF m]] g m
  show ?thesis by (simp add: instance_or_identity_def)
qed




section \<open>Composability of the backward control relation\<close>

lemma canonical_scan_flag:
  "canonical_scan rule typing (False, b) = Inr (c, b') \<Longrightarrow> \<not> c"
proof (induction typing arbitrary: b)
  case Nil
  then show ?case by simp
next
  case (Cons x typing)
  obtain graph_n p_nodes where x: "x = (graph_n, p_nodes)" by (cases x)
  show ?case
  proof (cases "length p_nodes > 0")
    case False
    with Cons x show ?thesis by simp
  next
    case True
    with Cons.prems x 
    obtain lhs_n where "canonical_scan rule typing (False, True) = Inr (c, b')"
      by (cases "lookup (p_lhs rule) (hd p_nodes)") (auto simp: Let_def)
    then show ?thesis by (rule Cons.IH)
  qed
qed

lemma check_canonical_never_accepts: "check_canonical rule typing \<noteq> Inr ()"
proof
  assume a: "check_canonical rule typing = Inr ()"
  then obtain c b where s: "canonical_scan rule typing (False, False) = Inr (c, b)"
    by (cases "canonical_scan rule typing (False, False)") (auto simp: check_canonical_def)
  then have "\<not> c" by (rule canonical_scan_flag)
  with a s show False by (simp add: check_canonical_def split: if_splits)
qed

text \<open>
  C5.  In the chain, \<open>mid\<close> is an ancestor of \<open>base\<close> with the predecessor \<open>top\<close>.  The entry of
  \<open>mid\<close> assigns to its node exactly the two clones of \<open>l\<close>, so it is canonical; the instance
  and the retyping check accept it; \<open>top\<close> has no entry.  The check raises \<open>RewritingError\<close>:
  the flag \<open>canonical\<close> is never set (\<open>check_canonical_never_accepts\<close>).
\<close>

theorem canonical_p_typing_rejected:
  "set [''p1'', ''p2''] = set (keys_by_value (p_lhs clone_rule) ''l'') \<and>
   predecessors chain ''mid'' = [''top''] \<and>
   check_instance chain ''base'' clone_rule [(''l'', ''g'')] = Inr () \<and>
   check_p_retype chain ''base'' clone_rule [(''l'', ''g'')]
     [(''mid'', [(''m'', [''p1'', ''p2''])])] = Inr () \<and>
   check_canonical clone_rule [(''m'', [''p1'', ''p2''])] = Inl RewritingError \<and>
   check_rule_instance_typing chain ''base'' clone_rule (Some [(''l'', ''g'')])
     (Some [(''mid'', [(''m'', [''p1'', ''p2''])])]) None False = Inl RewritingError"
proof -
  have 1: "set [''p1'', ''p2''] = set (keys_by_value (p_lhs clone_rule) ''l'')"
    by (simp add: keys_by_value_def clone_rule_def)
  have 2: "predecessors chain ''mid'' = [''top'']"
    by (simp add: predecessors_def typings_def chain_def)
  have 3: "check_instance chain ''base'' clone_rule [(''l'', ''g'')] = Inr ()"
    by code_simp
  have 4: "check_p_retype chain ''base'' clone_rule [(''l'', ''g'')]
     [(''mid'', [(''m'', [''p1'', ''p2''])])] = Inr ()"
    by code_simp
  have 5: "check_canonical clone_rule [(''m'', [''p1'', ''p2''])] = Inl RewritingError"
    by code_simp
  have 6: "check_rule_instance_typing chain ''base'' clone_rule (Some [(''l'', ''g'')])
     (Some [(''mid'', [(''m'', [''p1'', ''p2''])])]) None False = Inl RewritingError"
    by code_simp
  from 1 2 3 4 5 6 show ?thesis by blast
qed

section \<open>Strict rewriting\<close>

lemma check_strict_descendant_cases:
  "check_strict_descendant rule rhs_typing desc =
     (if untyped_in rule rhs_typing desc then Inl RewritingError else Inr ())"
proof (cases "map_of rhs_typing desc")
  case None
  then show ?thesis by (simp add: check_strict_descendant_def untyped_in_def)
next
  case (Some entry)
  let ?f = "\<lambda>rhs_n. case map_of entry rhs_n of
               None \<Rightarrow> Inl RewritingError
             | Some vs \<Rightarrow> (if length vs \<noteq> 1 then Inl RewritingError else Inr ())"
  have "for_each ?f (added_nodes rule) =
      (if \<exists>n\<in>set (added_nodes rule). ?f n = Inl RewritingError then Inl RewritingError else Inr ())"
    by (rule for_each_cases) (auto split: option.splits)
  also have "(\<exists>n\<in>set (added_nodes rule). ?f n = Inl RewritingError) \<longleftrightarrow>
      list_ex (\<lambda>rhs_n. case map_of entry rhs_n of None \<Rightarrow> True | Some vs \<Rightarrow> length vs \<noteq> 1)
            (added_nodes rule)"
    by (auto simp: list_ex_iff split: option.splits)
  finally show ?thesis using Some by (simp add: check_strict_descendant_def untyped_in_def)
qed

text \<open>
  C3, as the code has it.  When the checks before the strict one pass and leave the
  normalised and auto-completed \<open>rhs_typing\<close>, the rule adds a node, and some descendant of
  the rewritten graph is untyped in that \<open>rhs_typing\<close>, then a strict \<open>rewrite\<close> raises
  \<open>RewritingError\<close> and leaves the hierarchy as it was.
\<close>

theorem strict_rewrite_requires_typing:
  assumes before: "check_before_strict H graph_id rule instance0 p_typing0 rhs_typing0
                     = Inr (instance, p_typing, rhs_typing)"
    and added: "added_nodes rule \<noteq> []"
    and ds: "get_descendants H graph_id = Inr ds"
    and desc: "desc \<in> set (dict_keys ds)"
    and untyped: "untyped_in rule rhs_typing desc"
  shows "check_rule_instance_typing H graph_id rule instance0 p_typing0 rhs_typing0 True
           = Inl RewritingError
         \<and> rewrite B H graph_id rule instance0 p_typing0 rhs_typing0 True
           = (Inl RewritingError, H)"
proof -
  have "for_each (check_strict_descendant rule rhs_typing) (dict_keys ds) =
      (if \<exists>d\<in>set (dict_keys ds). check_strict_descendant rule rhs_typing d = Inl RewritingError
       then Inl RewritingError else Inr ())"
    by (rule for_each_cases) (simp add: check_strict_descendant_cases)
  with desc untyped
  have "for_each (check_strict_descendant rule rhs_typing) (dict_keys ds) = Inl RewritingError"
    by (auto simp: check_strict_descendant_cases)
  with added ds have "check_strict H graph_id rule rhs_typing True = Inl RewritingError"
    by (simp add: check_strict_def)
  with before
  have c: "check_rule_instance_typing H graph_id rule instance0 p_typing0 rhs_typing0 True
           = Inl RewritingError"
    by (simp add: check_rule_instance_typing_def)
  then show ?thesis using rewrite_check_fails by blast
qed

theorem strict_rewrite_requires_typing_witness:
  "check_before_strict chain ''base'' add_rule (Some [(''l'', ''g'')]) None None
     = Inr ([(''l'', ''g'')], [], []) \<and>
   added_nodes add_rule \<noteq> [] \<and>
   ''low'' \<in> set (dict_keys [(''low'', [(''g'', ''x''), (''h'', ''x'')]),
                              (''floor'', [(''g'', ''z''), (''h'', ''z'')])]) \<and>
   untyped_in add_rule [] ''low'' \<and>
   rewrite idle_backend chain ''base'' add_rule (Some [(''l'', ''g'')]) None None True
     = (Inl RewritingError, chain)"
proof -
  have b: "check_before_strict chain ''base'' add_rule (Some [(''l'', ''g'')]) None None
     = Inr ([(''l'', ''g'')], [], [])"
    by code_simp
  have a: "added_nodes add_rule \<noteq> []" by code_simp
  have d: "get_descendants chain ''base'' = Inr [(''low'', [(''g'', ''x''), (''h'', ''x'')]),
      (''floor'', [(''g'', ''z''), (''h'', ''z'')])]"
    by code_simp
  have m: "''low'' \<in> set (dict_keys [(''low'', [(''g'', ''x''), (''h'', ''x'')]),
                              (''floor'', [(''g'', ''z''), (''h'', ''z'')])])"
    by (simp add: dict_keys_def)
  have u: "untyped_in add_rule [] ''low''" by (simp add: untyped_in_def)
  from strict_rewrite_requires_typing [OF b a d m u] b a m u show ?thesis by blast
qed

text \<open>
  C3, as stated, fails: \<open>floor\<close> is a descendant of \<open>base\<close> with no entry in the \<open>rhs_typing\<close>
  that is passed, the rule adds \<open>c\<close> and the rewrite is strict; the check completes the entry
  of \<open>floor\<close> from that of \<open>low\<close> and accepts.
\<close>

theorem strict_rewrite_autocompletes_counterexample:
  "added_nodes add_rule = [''c''] \<and>
   get_descendants chain ''base'' = Inr [(''low'', [(''g'', ''x''), (''h'', ''x'')]),
                                          (''floor'', [(''g'', ''z''), (''h'', ''z'')])] \<and>
   map_of (normalize_typing_relation [(''low'', [(''c'', [''x''])])]) ''floor'' = None \<and>
   check_rule_instance_typing chain ''base'' add_rule (Some [(''l'', ''g'')]) None
     (Some [(''low'', [(''c'', [''x''])])]) True
     = Inr ([(''l'', ''g'')], [],
            [(''low'', [(''c'', [''x''])]), (''floor'', [(''c'', [''z''])])]) \<and>
   rewrite idle_backend chain ''base'' add_rule (Some [(''l'', ''g'')]) None
     (Some [(''low'', [(''c'', [''x''])])]) True \<noteq> (Inl RewritingError, chain)"
proof -
  have 1: "added_nodes add_rule = [''c'']" by code_simp
  have 2: "get_descendants chain ''base'' = Inr [(''low'', [(''g'', ''x''), (''h'', ''x'')]),
                                          (''floor'', [(''g'', ''z''), (''h'', ''z'')])]"
    by code_simp
  have 3: "map_of (normalize_typing_relation [(''low'', [(''c'', [''x''])])]) ''floor'' = None"
    by (simp add: normalize_typing_relation_def)
  have 4: "check_rule_instance_typing chain ''base'' add_rule (Some [(''l'', ''g'')]) None
     (Some [(''low'', [(''c'', [''x''])])]) True
     = Inr ([(''l'', ''g'')], [],
            [(''low'', [(''c'', [''x''])]), (''floor'', [(''c'', [''z''])])])"
    by code_simp
  have 5: "rewrite idle_backend chain ''base'' add_rule (Some [(''l'', ''g'')]) None
     (Some [(''low'', [(''c'', [''x''])])]) True \<noteq> (Inl RewritingError, chain)"
    by (simp add: rewrite_def 4 idle_backend_def)
  from 1 2 3 4 5 show ?thesis by blast
qed

section \<open>Duplicating a subgraph\<close>

text \<open>The typing edges are only ever appended to: \<open>extends H H'\<close>.\<close>

definition extends :: "hierarchy \<Rightarrow> hierarchy \<Rightarrow> bool" where
  "extends H H' \<longleftrightarrow> (\<exists>ys. typing_store H' = typing_store H @ ys)"

lemma extends_refl: "extends H H"
  by (simp add: extends_def)

lemma extends_trans: "extends H H1 \<Longrightarrow> extends H1 H2 \<Longrightarrow> extends H H2"
  by (auto simp: extends_def)

lemma extends_typings: "extends H H' \<Longrightarrow> set (typings H) \<subseteq> set (typings H')"
  by (auto simp: extends_def typings_def)

lemma extends_get_typing:
  assumes "extends H H'" and "(s, t) \<in> set (typings H)"
  shows "get_typing H' s t = get_typing H s t"
proof -
  from assms(1) obtain ys where ys: "typing_store H' = typing_store H @ ys"
    by (auto simp: extends_def)
  from assms(2) obtain v where "map_of (typing_store H) (s, t) = Some v"
    by (cases "map_of (typing_store H) (s, t)") (auto simp: typings_def map_of_eq_None_iff)
  then show ?thesis by (simp add: get_typing_def ys map_add_def)
qed

lemma add_typing_success:
  assumes "add_typing H s t m a = Inr H'"
  shows "typing_store H' = typing_store H @ [((s, t), m, a)] \<and> (s, t) \<notin> set (typings H)"
  using assms
  by (auto simp: add_typing_def then_do_def split: sum.splits if_splits)

lemma add_relation_typings: "add_relation H l r rel a = Inr H' \<Longrightarrow> typing_store H' = typing_store H"
  by (auto simp: add_relation_def then_do_def split: sum.splits if_splits)

lemma add_graph_typings: "add_graph H g G a = Inr H' \<Longrightarrow> typing_store H' = typing_store H"
  by (auto simp: add_graph_def split: if_splits)

lemma atomic_add_typing_extends:
  "atomic (add_typing H s t m a) H = (r, H') \<Longrightarrow> extends H H'"
  by (auto simp: atomic_def extends_def split: sum.splits dest: add_typing_success)

lemma atomic_add_relation_extends:
  "atomic (add_relation H l r' rel a) H = (r, H') \<Longrightarrow> extends H H'"
  by (auto simp: atomic_def extends_def split: sum.splits dest: add_relation_typings)

lemma fold_state_invariant:
  assumes "\<And>x s r s'. P s \<Longrightarrow> f x s = (r, s') \<Longrightarrow> P s'"
    and "P s" and "fold_state f xs s = (r, s')"
  shows "P s'"
  using assms(2,3)
proof (induction xs arbitrary: s)
  case Nil
  then show ?case by simp
next
  case (Cons x xs)
  obtain r1 s1 where f: "f x s = (r1, s1)" by (cases "f x s")
  with Cons.prems(1) assms(1) have p1: "P s1" by blast
  show ?case
  proof (cases r1)
    case (Inl e)
    with f Cons.prems(2) have "s' = s1" by simp
    with p1 show ?thesis by simp
  next
    case (Inr u)
    with f Cons.prems(2) have "fold_state f xs s1 = (r, s')" by simp
    with p1 show ?thesis by (rule Cons.IH)
  qed
qed

lemma attach_graph_extends:
  assumes "attach_graph graph_id new g H = (r, H')"
  shows "extends H H'"
proof -
  obtain r1 H1 where 1: "(if g \<in> set (successors H graph_id)
            then atomic (add_typing H new g (get_typing H graph_id g) []) H
            else (Inr (), H)) = (r1, H1)"
    by (metis surj_pair)
  then have e1: "extends H H1"
    by (auto split: if_splits intro: extends_refl dest: atomic_add_typing_extends)
  obtain r2 H2 where 2: "(if g \<in> set (predecessors H1 graph_id)
                 then atomic (add_typing H1 g new (get_typing H1 g graph_id) []) H1
                 else (Inr (), H1)) = (r2, H2)"
    by (metis surj_pair)
  then have e2: "extends H1 H2"
    by (auto split: if_splits intro: extends_refl dest: atomic_add_typing_extends)
  have "H' = H1 \<or> H' = H2 \<or> (\<exists>r3. atomic (add_relation H2 g new (get_relation H2 g graph_id) []) H2 = (r3, H'))"
    using assms 1 2 unfolding attach_graph_def
    by (auto split: sum.splits if_splits)
  then show ?thesis
    using e1 e2 extends_trans atomic_add_relation_extends by blast
qed

lemma copy_graph_extends:
  assumes "copy_graph graph_id new attach H = (r, H')"
  shows "extends H H'"
proof (cases "new \<in> set (graphs H)")
  case True
  with assms show ?thesis by (simp add: copy_graph_def extends_refl)
next
  case False
  let ?G = "case get_graph H graph_id of Inr G \<Rightarrow> G | Inl e \<Rightarrow> \<lparr>nodes = [], edges = []\<rparr>"
  show ?thesis
  proof (cases "add_graph H new ?G (get_graph_attrs H graph_id)")
    case (Inl e)
    with assms False show ?thesis by (simp add: copy_graph_def extends_refl)
  next
    case (Inr H1)
    then have "extends H H1" by (auto simp: extends_def dest: add_graph_typings)
    moreover from assms False Inr
    have "fold_state (attach_graph graph_id new) attach H1 = (r, H')"
      by (simp add: copy_graph_def)
    then have "extends H H'"
      by (rule fold_state_invariant [where P = "extends H", rotated 2])
         (auto intro: extends_trans attach_graph_extends calculation)
    ultimately show ?thesis by simp
  qed
qed

text \<open>The invariant of the third loop.\<close>

definition copies_done ::
  "hierarchy \<Rightarrow> (gid \<times> gid) list \<Rightarrow> hierarchy \<times> (gid \<times> gid) list \<Rightarrow> bool" where
  "copies_done H graph_dict = (\<lambda>(Hc, visited).
     extends H Hc \<and>
     (\<forall>(x, y) \<in> set visited. (x, y) \<in> set (typings H) \<longrightarrow>
        (\<exists>x' y'. map_of graph_dict x = Some x' \<and> map_of graph_dict y = Some y' \<and>
           (x', y') \<in> set (typings Hc) \<and> get_typing Hc x' y' = get_typing H x y)))"

lemma copy_typing_cases:
  assumes "copy_typing gd s t (Hc, vis) = (r, Hc', vis')"
  shows "(r \<noteq> Inr () \<and> Hc' = Hc \<and> vis' = vis) \<or>
         (r = Inr () \<and> vis' = (s, t) # vis \<and>
          (\<exists>s' t'. map_of gd s = Some s' \<and> map_of gd t = Some t' \<and>
             typing_store Hc' = typing_store Hc @ [((s', t'), get_typing Hc s t, [])] \<and>
             (s', t') \<notin> set (typings Hc)))"
  using assms
  by (auto simp: copy_typing_def then_do_def lookup_def
      split: sum.splits option.splits dest: add_typing_success)

lemma get_typing_appended:
  assumes "typing_store Hc' = typing_store Hc @ [((s', t'), m, a)]"
    and "(s', t') \<notin> set (typings Hc)"
  shows "get_typing Hc' s' t' = m"
proof -
  from assms(2) have "map_of (typing_store Hc) (s', t') = None"
    by (simp add: typings_def map_of_eq_None_iff)
  then show ?thesis by (simp add: get_typing_def assms(1) map_add_def)
qed

lemma copy_typing_invariant:
  assumes inv: "copies_done H gd st" and step: "copy_typing gd s t st = (r, st')"
  shows "copies_done H gd st'"
proof -
  obtain Hc vis where st: "st = (Hc, vis)" by (cases st)
  obtain Hc' vis' where st': "st' = (Hc', vis')" by (cases st')
  from inv st have e: "extends H Hc"
    and v: "\<And>x y. (x, y) \<in> set vis \<Longrightarrow> (x, y) \<in> set (typings H) \<Longrightarrow>
        (\<exists>x' y'. map_of gd x = Some x' \<and> map_of gd y = Some y' \<and>
           (x', y') \<in> set (typings Hc) \<and> get_typing Hc x' y' = get_typing H x y)"
    by (auto simp: copies_done_def)
  from copy_typing_cases [OF step [unfolded st st']]
  show ?thesis
  proof
    assume "r \<noteq> Inr () \<and> Hc' = Hc \<and> vis' = vis"
    with inv st st' show ?thesis by simp
  next
    assume "r = Inr () \<and> vis' = (s, t) # vis \<and>
          (\<exists>s' t'. map_of gd s = Some s' \<and> map_of gd t = Some t' \<and>
             typing_store Hc' = typing_store Hc @ [((s', t'), get_typing Hc s t, [])] \<and>
             (s', t') \<notin> set (typings Hc))"
    then obtain s' t' where vis': "vis' = (s, t) # vis"
      and gs: "map_of gd s = Some s'" and gt: "map_of gd t = Some t'"
      and store: "typing_store Hc' = typing_store Hc @ [((s', t'), get_typing Hc s t, [])]"
      and fresh: "(s', t') \<notin> set (typings Hc)"
      by blast
    have ext: "extends Hc Hc'" using store by (auto simp: extends_def)
    have e': "extends H Hc'" using e ext by (rule extends_trans)
    have new: "get_typing Hc' s' t' = get_typing Hc s t"
      using store fresh by (rule get_typing_appended)
    have "\<exists>x' y'. map_of gd x = Some x' \<and> map_of gd y = Some y' \<and>
           (x', y') \<in> set (typings Hc') \<and> get_typing Hc' x' y' = get_typing H x y"
      if mem: "(x, y) \<in> set vis'" and orig: "(x, y) \<in> set (typings H)" for x y
    proof (cases "(x, y) = (s, t)")
      case True
      have "(s', t') \<in> set (typings Hc')" using store by (simp add: typings_def)
      moreover have "get_typing Hc' s' t' = get_typing H s t"
        using new extends_get_typing [OF e] orig True by simp
      ultimately show ?thesis using True gs gt by auto
    next
      case False
      with mem vis' have "(x, y) \<in> set vis" by auto
      from v [OF this orig] obtain x' y' where
        "map_of gd x = Some x'" "map_of gd y = Some y'"
        "(x', y') \<in> set (typings Hc)" "get_typing Hc x' y' = get_typing H x y"
        by blast
      moreover from this have "(x', y') \<in> set (typings Hc')"
        using extends_typings [OF ext] by blast
      moreover have "get_typing Hc' x' y' = get_typing Hc x' y'"
        using ext \<open>(x', y') \<in> set (typings Hc)\<close> by (rule extends_get_typing)
      ultimately show ?thesis by auto
    qed
    with e' st' show ?thesis by (auto simp: copies_done_def)
  qed
qed

lemma copy_typing_visited_grows:
  "copy_typing gd s t (Hc, vis) = (r, Hc', vis') \<Longrightarrow> set vis \<subseteq> set vis'"
  by (drule copy_typing_cases) auto

lemma fold_copy_visited_grows:
  assumes "fold_state (\<lambda>x. copy_typing gd (a x) (b x)) xs st = (r, st')"
  shows "set (snd st) \<subseteq> set (snd st')"
proof (rule fold_state_invariant [where P = "\<lambda>s. set (snd st) \<subseteq> set (snd s)"
      and f = "\<lambda>x. copy_typing gd (a x) (b x)", OF _ _ assms])
  show "set (snd st) \<subseteq> set (snd st)" by simp
next
  fix x s r s'
  assume "set (snd st) \<subseteq> set (snd s)" and "copy_typing gd (a x) (b x) s = (r, s')"
  then show "set (snd st) \<subseteq> set (snd s')"
    using copy_typing_visited_grows [of gd "a x" "b x" "fst s" "snd s" r "fst s'" "snd s'"]
    by auto
qed

lemma fold_copy_success_visits:
  assumes "fold_state (\<lambda>x. copy_typing gd (a x) (b x)) xs st = (Inr (), st')"
    and "x \<in> set xs"
  shows "(a x, b x) \<in> set (snd st')"
  using assms
proof (induction xs arbitrary: st)
  case Nil
  then show ?case by simp
next
  case (Cons y ys)
  obtain r1 s1 where f: "copy_typing gd (a y) (b y) st = (r1, s1)"
    by (cases "copy_typing gd (a y) (b y) st")
  with Cons.prems(1) have r1: "r1 = Inr ()" and rest:
    "fold_state (\<lambda>x. copy_typing gd (a x) (b x)) ys s1 = (Inr (), st')"
    by (cases r1; simp)+
  show ?case
  proof (cases "x = y")
    case True
    from f r1 have "(a y, b y) \<in> set (snd s1)"
      using copy_typing_cases [of gd "a y" "b y" "fst st" "snd st" r1 "fst s1" "snd s1"]
      by auto
    with fold_copy_visited_grows [OF rest] True show ?thesis by auto
  next
    case False
    with Cons.prems(2) have "x \<in> set ys" by simp
    with rest show ?thesis by (rule Cons.IH)
  qed
qed

lemma fold_copy_invariant:
  assumes "copies_done H gd st"
    and "fold_state (\<lambda>x. copy_typing gd (a x) (b x)) xs st = (r, st')"
  shows "copies_done H gd st'"
  by (rule fold_state_invariant [where P = "copies_done H gd"
        and f = "\<lambda>x. copy_typing gd (a x) (b x)", OF _ assms])
     (rule copy_typing_invariant)

lemma copy_typings_of_cases:
  assumes "copy_typings_of gd g (Hc, vis) = (r, st')"
  obtains st1 r1 where
    "fold_state (\<lambda>s. copy_typing gd g s)
       (filter (\<lambda>p. p \<in> set (dict_keys gd) \<and> (g, p) \<notin> set vis) (successors Hc g)) (Hc, vis)
       = (r1, st1)"
    and "(r1 \<noteq> Inr () \<and> r = r1 \<and> st' = st1) \<or>
         (r1 = Inr () \<and>
          fold_state (\<lambda>p. copy_typing gd p g)
            (filter (\<lambda>p. p \<in> set (dict_keys gd) \<and> (p, g) \<notin> set vis) (predecessors Hc g)) st1
            = (r, st'))"
proof -
  let ?sucs = "filter (\<lambda>p. p \<in> set (dict_keys gd) \<and> (g, p) \<notin> set vis) (successors Hc g)"
  let ?preds = "filter (\<lambda>p. p \<in> set (dict_keys gd) \<and> (p, g) \<notin> set vis) (predecessors Hc g)"
  obtain r1 st1 where 1: "fold_state (\<lambda>s. copy_typing gd g s) ?sucs (Hc, vis) = (r1, st1)"
    by (cases "fold_state (\<lambda>s. copy_typing gd g s) ?sucs (Hc, vis)")
  have u: "copy_typings_of gd g (Hc, vis) =
      (case r1 of Inl e \<Rightarrow> (Inl e, st1)
       | Inr u \<Rightarrow> fold_state (\<lambda>p. copy_typing gd p g) ?preds st1)"
    unfolding copy_typings_of_def Let_def prod.case 1 by (cases r1) simp_all
  have "(r1 \<noteq> Inr () \<and> r = r1 \<and> st' = st1) \<or>
         (r1 = Inr () \<and> fold_state (\<lambda>p. copy_typing gd p g) ?preds st1 = (r, st'))"
  proof (cases r1)
    case (Inl e)
    with u assms show ?thesis by simp
  next
    case (Inr v)
    with u assms show ?thesis by simp
  qed
  with 1 show thesis by (rule that)
qed

lemma copy_typings_of_invariant:
  assumes inv: "copies_done H gd st" and step: "copy_typings_of gd g st = (r, st')"
  shows "copies_done H gd st'"
proof -
  obtain Hc vis where st: "st = (Hc, vis)" by (cases st)
  from step [unfolded st] show ?thesis
  proof (rule copy_typings_of_cases)
    fix st1 r1
    assume 1: "fold_state (\<lambda>s. copy_typing gd g s)
       (filter (\<lambda>p. p \<in> set (dict_keys gd) \<and> (g, p) \<notin> set vis) (successors Hc g)) (Hc, vis)
       = (r1, st1)"
      and 2: "(r1 \<noteq> Inr () \<and> r = r1 \<and> st' = st1) \<or>
         (r1 = Inr () \<and>
          fold_state (\<lambda>p. copy_typing gd p g)
            (filter (\<lambda>p. p \<in> set (dict_keys gd) \<and> (p, g) \<notin> set vis) (predecessors Hc g)) st1
            = (r, st'))"
    have i1: "copies_done H gd st1"
      using inv [unfolded st] 1 by (rule fold_copy_invariant [where a = "\<lambda>x. g" and b = "\<lambda>x. x"])
    from 2 show ?thesis
    proof
      assume "r1 \<noteq> Inr () \<and> r = r1 \<and> st' = st1"
      with i1 show ?thesis by simp
    next
      assume "r1 = Inr () \<and>
          fold_state (\<lambda>p. copy_typing gd p g)
            (filter (\<lambda>p. p \<in> set (dict_keys gd) \<and> (p, g) \<notin> set vis) (predecessors Hc g)) st1
            = (r, st')"
      then show ?thesis
        using i1 fold_copy_invariant [where a = "\<lambda>x. x" and b = "\<lambda>x. g"] by blast
    qed
  qed
qed

lemma copy_typings_of_visited_grows:
  assumes step: "copy_typings_of gd g st = (r, st')"
  shows "set (snd st) \<subseteq> set (snd st')"
proof -
  obtain Hc vis where st: "st = (Hc, vis)" by (cases st)
  from step [unfolded st] show ?thesis
  proof (rule copy_typings_of_cases)
    fix st1 r1
    assume 1: "fold_state (\<lambda>s. copy_typing gd g s)
       (filter (\<lambda>p. p \<in> set (dict_keys gd) \<and> (g, p) \<notin> set vis) (successors Hc g)) (Hc, vis)
       = (r1, st1)"
      and 2: "(r1 \<noteq> Inr () \<and> r = r1 \<and> st' = st1) \<or>
         (r1 = Inr () \<and>
          fold_state (\<lambda>p. copy_typing gd p g)
            (filter (\<lambda>p. p \<in> set (dict_keys gd) \<and> (p, g) \<notin> set vis) (predecessors Hc g)) st1
            = (r, st'))"
    have g1: "set vis \<subseteq> set (snd st1)"
      using fold_copy_visited_grows [where a = "\<lambda>x. g" and b = "\<lambda>x. x", OF 1] by simp
    from 2 have "set (snd st1) \<subseteq> set (snd st')"
    proof
      assume "r1 \<noteq> Inr () \<and> r = r1 \<and> st' = st1"
      then show ?thesis by simp
    next
      assume "r1 = Inr () \<and>
          fold_state (\<lambda>p. copy_typing gd p g)
            (filter (\<lambda>p. p \<in> set (dict_keys gd) \<and> (p, g) \<notin> set vis) (predecessors Hc g)) st1
            = (r, st')"
      then have "fold_state (\<lambda>p. copy_typing gd p g)
            (filter (\<lambda>p. p \<in> set (dict_keys gd) \<and> (p, g) \<notin> set vis) (predecessors Hc g)) st1
            = (r, st')" by simp
      then show ?thesis
        by (rule fold_copy_visited_grows [where a = "\<lambda>x. x" and b = "\<lambda>x. g"])
    qed
    with g1 st show ?thesis by auto
  qed
qed

lemma copy_typings_of_success_visits:
  assumes step: "copy_typings_of gd g (Hc, vis) = (Inr (), st')"
    and s: "s \<in> set (successors Hc g)" "s \<in> set (dict_keys gd)"
  shows "(g, s) \<in> set (snd st')"
proof (rule copy_typings_of_cases [OF step])
  fix st1 r1
  let ?sucs = "filter (\<lambda>p. p \<in> set (dict_keys gd) \<and> (g, p) \<notin> set vis) (successors Hc g)"
  assume 1: "fold_state (\<lambda>s. copy_typing gd g s) ?sucs (Hc, vis) = (r1, st1)"
    and 2: "(r1 \<noteq> Inr () \<and> Inr () = r1 \<and> st' = st1) \<or>
         (r1 = Inr () \<and>
          fold_state (\<lambda>p. copy_typing gd p g)
            (filter (\<lambda>p. p \<in> set (dict_keys gd) \<and> (p, g) \<notin> set vis) (predecessors Hc g)) st1
            = (Inr (), st'))"
  from 2 have r1: "r1 = Inr ()" and rest: "fold_state (\<lambda>p. copy_typing gd p g)
            (filter (\<lambda>p. p \<in> set (dict_keys gd) \<and> (p, g) \<notin> set vis) (predecessors Hc g)) st1
            = (Inr (), st')"
    by auto
  have "(g, s) \<in> set (snd st1)"
  proof (cases "(g, s) \<in> set vis")
    case True
    with fold_copy_visited_grows [where a = "\<lambda>x. g" and b = "\<lambda>x. x", OF 1]
    show ?thesis by auto
  next
    case False
    with s have "s \<in> set ?sucs" by simp
    with 1 r1 show ?thesis
      using fold_copy_success_visits [where a = "\<lambda>x. g" and b = "\<lambda>x. x"] by blast
  qed
  with fold_copy_visited_grows [where a = "\<lambda>x. x" and b = "\<lambda>x. g", OF rest]
  show ?thesis by auto
qed

lemma rounds_visited_grow:
  "fold_state (copy_typings_of gd) gs st = (r, st') \<Longrightarrow> set (snd st) \<subseteq> set (snd st')"
proof (induction gs arbitrary: st)
  case Nil
  then show ?case by simp
next
  case (Cons y ys)
  obtain r1 s1 where f: "copy_typings_of gd y st = (r1, s1)"
    by (cases "copy_typings_of gd y st")
  then have g: "set (snd st) \<subseteq> set (snd s1)" by (rule copy_typings_of_visited_grows)
  show ?case
  proof (cases r1)
    case (Inl e)
    with f Cons.prems have "st' = s1" by simp
    with g show ?thesis by simp
  next
    case (Inr u)
    with f Cons.prems have "fold_state (copy_typings_of gd) ys s1 = (r, st')" by simp
    then have "set (snd s1) \<subseteq> set (snd st')" by (rule Cons.IH)
    with g show ?thesis by blast
  qed
qed

lemma rounds_visit_all:
  assumes "fold_state (copy_typings_of gd) gs st = (Inr (), st')"
    and "copies_done H gd st"
    and "g \<in> set gs" and "s \<in> set (dict_keys gd)" and "(g, s) \<in> set (typings H)"
  shows "(g, s) \<in> set (snd st')"
  using assms(1,2,3)
proof (induction gs arbitrary: st)
  case Nil
  then show ?case by simp
next
  case (Cons y ys)
  obtain r1 s1 where f: "copy_typings_of gd y st = (r1, s1)"
    by (cases "copy_typings_of gd y st")
  with Cons.prems(1) have r1: "r1 = Inr ()"
    and rest: "fold_state (copy_typings_of gd) ys s1 = (Inr (), st')"
    by (cases r1; simp)+
  have i1: "copies_done H gd s1" using Cons.prems(2) f by (rule copy_typings_of_invariant)
  show ?case
  proof (cases "g = y")
    case True
    obtain Hc vis where st: "st = (Hc, vis)" by (cases st)
    from Cons.prems(2) st have "extends H Hc" by (simp add: copies_done_def)
    with assms(5) have "(g, s) \<in> set (typings Hc)" using extends_typings by blast
    then have "s \<in> set (successors Hc g)" by (force simp: successors_def)
    with f r1 st True assms(4) have "(g, s) \<in> set (snd s1)"
      using copy_typings_of_success_visits by blast
    moreover have "set (snd s1) \<subseteq> set (snd st')"
      using rest by (rule rounds_visited_grow)
    ultimately show ?thesis by auto
  next
    case False
    with Cons.prems(3) have "g \<in> set ys" by simp
    with rest i1 show ?thesis by (rule Cons.IH)
  qed
qed

lemma precheck_collision:
  assumes "(original, new) \<in> set gd" and "new \<in> set (graphs H)"
  shows "for_each (\<lambda>(original, new).
           if new \<in> set (graphs H) then Inl HierarchyError else Inr ()) gd = Inl HierarchyError"
proof -
  let ?f = "\<lambda>(original, new). if new \<in> set (graphs H) then Inl HierarchyError else Inr ()"
  have "for_each ?f gd =
      (if \<exists>x\<in>set gd. ?f x = Inl HierarchyError then Inl HierarchyError else Inr ())"
    by (rule for_each_cases) auto
  moreover have "\<exists>x\<in>set gd. ?f x = Inl HierarchyError"
    using assms by (intro bexI [of _ "(original, new)"]) simp_all
  ultimately show ?thesis by simp
qed

text \<open>
  C7.  When a new id of \<open>graph_dict\<close> names a graph of the hierarchy, \<open>duplicate_subgraph\<close>
  raises \<open>HierarchyError\<close> and leaves the hierarchy as it was: the ids are checked before the
  first copy.  When it succeeds, every typing edge of the hierarchy between two duplicated
  graphs is an edge between their copies in the result, with the same mapping.
\<close>

theorem duplicate_subgraph_collision_and_typings:
  "((\<exists>original new. (original, new) \<in> set graph_dict \<and> new \<in> set (graphs H)) \<longrightarrow>
      duplicate_subgraph H graph_dict attach_graphs = (Inl HierarchyError, H)) \<and>
   (duplicate_subgraph H graph_dict attach_graphs = (Inr (), H') \<longrightarrow>
      (\<forall>g s. g \<in> set (dict_keys graph_dict) \<and> s \<in> set (dict_keys graph_dict) \<and>
             (g, s) \<in> set (typings H) \<longrightarrow>
         (\<exists>g' s'. map_of graph_dict g = Some g' \<and> map_of graph_dict s = Some s' \<and>
            (g', s') \<in> set (typings H') \<and> get_typing H' g' s' = get_typing H g s)))"
proof (intro conjI impI allI)
  assume "\<exists>original new. (original, new) \<in> set graph_dict \<and> new \<in> set (graphs H)"
  then obtain original new where "(original, new) \<in> set graph_dict" "new \<in> set (graphs H)"
    by blast
  then have "for_each (\<lambda>(original, new).
           if new \<in> set (graphs H) then Inl HierarchyError else Inr ()) graph_dict
      = Inl HierarchyError"
    by (rule precheck_collision)
  then show "duplicate_subgraph H graph_dict attach_graphs = (Inl HierarchyError, H)"
    by (simp add: duplicate_subgraph_def Let_def)
next
  fix g s
  assume ok: "duplicate_subgraph H graph_dict attach_graphs = (Inr (), H')"
    and gs: "g \<in> set (dict_keys graph_dict) \<and> s \<in> set (dict_keys graph_dict) \<and>
             (g, s) \<in> set (typings H)"
  obtain r1 H1 where c: "fold_state (\<lambda>(original, new). copy_graph original new attach_graphs)
                     graph_dict H = (r1, H1)"
    by (metis surj_pair)
  obtain r2 H2 vis where t: "fold_state (copy_typings_of graph_dict) (dict_keys graph_dict) (H1, [])
      = (r2, H2, vis)"
    by (metis surj_pair)
  from ok c t have r2: "r2 = Inr ()" and H2: "H2 = H'"
    by (auto simp: duplicate_subgraph_def Let_def split: sum.splits)
  have e1: "extends H H1"
  proof (rule fold_state_invariant [where P = "extends H", OF _ extends_refl c])
    fix x :: "gid \<times> gid" and q r q'
    assume a: "extends H q" and b: "(case x of (original, new) \<Rightarrow>
        copy_graph original new attach_graphs) q = (r, q')"
    obtain original new where "x = (original, new)" by (cases x)
    with b have "extends q q'" by (auto dest: copy_graph_extends)
    with a show "extends H q'" by (rule extends_trans)
  qed
  then have i1: "copies_done H graph_dict (H1, [])" by (simp add: copies_done_def)
  have i2: "copies_done H graph_dict (H2, vis)"
    by (rule fold_state_invariant [where P = "copies_done H graph_dict", OF _ i1 t])
       (rule copy_typings_of_invariant)
  from gs have g: "g \<in> set (dict_keys graph_dict)" and s: "s \<in> set (dict_keys graph_dict)"
    and orig: "(g, s) \<in> set (typings H)"
    by simp_all
  have "(g, s) \<in> set (snd (H2, vis))"
    using t [unfolded r2] i1 g s orig by (rule rounds_visit_all)
  then have v: "(g, s) \<in> set vis" by simp
  from i2 have "\<forall>(x, y) \<in> set vis. (x, y) \<in> set (typings H) \<longrightarrow>
        (\<exists>x' y'. map_of graph_dict x = Some x' \<and> map_of graph_dict y = Some y' \<and>
           (x', y') \<in> set (typings H2) \<and> get_typing H2 x' y' = get_typing H x y)"
    by (simp add: copies_done_def)
  with v orig H2
  show "\<exists>g' s'. map_of graph_dict g = Some g' \<and> map_of graph_dict s = Some s' \<and>
            (g', s') \<in> set (typings H') \<and> get_typing H' g' s' = get_typing H g s"
    by blast
qed

theorem duplicate_subgraph_collision_and_typings_witness:
  "''top'' \<in> set (graphs chain) \<and>
   duplicate_subgraph chain [(''mid'', ''top'')] [] = (Inl HierarchyError, chain) \<and>
   fst (duplicate_subgraph chain [(''mid'', ''mid2''), (''base'', ''base2'')] []) = Inr () \<and>
   (''mid'', ''base'') \<in> set (typings chain) \<and>
   (''mid2'', ''base2'') \<in>
     set (typings (snd (duplicate_subgraph chain [(''mid'', ''mid2''), (''base'', ''base2'')] []))) \<and>
   get_typing (snd (duplicate_subgraph chain [(''mid'', ''mid2''), (''base'', ''base2'')] []))
     ''mid2'' ''base2'' = [(''m'', ''g'')]"
proof -
  let ?gd = "[(''mid'', ''mid2''), (''base'', ''base2'')]"
  let ?H' = "snd (duplicate_subgraph chain ?gd [])"
  have top: "''top'' \<in> set (graphs chain)" by (simp add: graphs_def chain_def)
  have 1: "duplicate_subgraph chain [(''mid'', ''top'')] [] = (Inl HierarchyError, chain)"
    using duplicate_subgraph_collision_and_typings [of "[(''mid'', ''top'')]" chain "[]"] top
    by auto
  have ok: "fst (duplicate_subgraph chain ?gd []) = Inr ()" by code_simp
  then have eq: "duplicate_subgraph chain ?gd [] = (Inr (), ?H')"
    by (cases "duplicate_subgraph chain ?gd []") simp
  have e: "(''mid'', ''base'') \<in> set (typings chain)" by (simp add: typings_def chain_def)
  have t: "get_typing chain ''mid'' ''base'' = [(''m'', ''g'')]"
    by (simp add: get_typing_def chain_def)
  have k: "''mid'' \<in> set (dict_keys ?gd)" "''base'' \<in> set (dict_keys ?gd)"
    by (simp_all add: dict_keys_def)
  have "\<forall>g s. g \<in> set (dict_keys ?gd) \<and> s \<in> set (dict_keys ?gd) \<and>
             (g, s) \<in> set (typings chain) \<longrightarrow>
         (\<exists>g' s'. map_of ?gd g = Some g' \<and> map_of ?gd s = Some s' \<and>
            (g', s') \<in> set (typings ?H') \<and> get_typing ?H' g' s' = get_typing chain g s)"
    using duplicate_subgraph_collision_and_typings [of ?gd chain "[]" ?H'] eq by blast
  with k e obtain g' s' where m: "map_of ?gd ''mid'' = Some g'" "map_of ?gd ''base'' = Some s'"
    and c: "(g', s') \<in> set (typings ?H')" "get_typing ?H' g' s' = get_typing chain ''mid'' ''base''"
    by blast
  from m have "g' = ''mid2''" "s' = ''base2''" by simp_all
  with c t have "(''mid2'', ''base2'') \<in> set (typings ?H') \<and>
      get_typing ?H' ''mid2'' ''base2'' = [(''m'', ''g'')]"
    by simp
  with top 1 ok e show ?thesis by blast
qed

section \<open>The rule hierarchy is not computed\<close>

lemma for_unpacked_keys:
  "for_unpacked body keys st = Inr st' \<Longrightarrow> list_all (\<lambda>k. length k = 2) keys"
proof (induction keys arbitrary: st)
  case Nil
  then show ?case by simp
next
  case (Cons k keys)
  from Cons.prems obtain a b where "unpack_pair k = Inr (a, b)"
    by (cases "unpack_pair k") (auto simp: for_unpacked_def)
  then have "length k = 2"
    by (auto simp: unpack_pair_def split: list.splits)
  moreover from Cons.prems obtain st1 where "for_unpacked body keys st1 = Inr st'"
    by (auto simp: for_unpacked_def split: sum.splits)
  then have "list_all (\<lambda>k. length k = 2) keys" by (rule Cons.IH)
  ultimately show ?case by simp
qed

text \<open>
  C6.  For the chain and the cloning rule at \<open>base\<close>, whose ancestors are \<open>mid\<close> and \<open>top\<close>,
  \<open>get_rule_propagations\<close> raises \<open>ValueError\<close> whatever the kernel computes: the first loop
  unpacks the key \<open>mid\<close>.  No rule hierarchy is returned.
\<close>

theorem get_rule_propagations_raises:
  "get_ancestors chain ''base'' = Inr [(''mid'', [(''m'', ''g'')]), (''top'', [(''t'', ''g'')])] \<and>
   unpack_pair ''mid'' = Inl ValueError \<and>
   get_rule_propagations K chain ''base'' clone_rule (Some [(''l'', ''g'')]) None None
     = Inl ValueError"
proof -
  have c: "check_rule_instance_typing chain ''base'' clone_rule (Some [(''l'', ''g'')]) None None
      False = Inr ([(''l'', ''g'')], [], [])"
    by code_simp
  have a: "get_ancestors chain ''base''
      = Inr [(''mid'', [(''m'', ''g'')]), (''top'', [(''t'', ''g'')])]"
    by code_simp
  have d: "get_descendants chain ''base'' = Inr [(''low'', [(''g'', ''x''), (''h'', ''x'')]),
                                          (''floor'', [(''g'', ''z''), (''h'', ''z'')])]"
    by code_simp
  have u: "unpack_pair ''mid'' = Inl ValueError" by (simp add: unpack_pair_def)
  have "get_rule_propagations K chain ''base'' clone_rule (Some [(''l'', ''g'')]) None None
     = Inl ValueError"
    by (simp add: get_rule_propagations_def c a d u for_unpacked_def dict_keys_def)
  with a u show ?thesis by blast
qed

section \<open>Ancestors and descendants collapse the paths\<close>

subsection \<open>Dictionaries as maps\<close>

lemma dict_keys_Nil [simp]: "dict_keys [] = []"
  by (simp add: dict_keys_def)

lemma dict_keys_Cons [simp]: "dict_keys ((k, v) # d) = k # dict_keys d"
  by (simp add: dict_keys_def)

lemma dict_set_map_of: "map_of (dict_set d k v) = (map_of d)(k \<mapsto> v)"
  by (simp add: dict_set_def update_conv')

lemma dict_set_keys: "set (dict_keys (dict_set d k v)) = insert k (set (dict_keys d))"
  using dom_update [of k v d] by (simp add: dict_set_def dict_keys_def)

lemma dict_set_distinct: "distinct (dict_keys d) \<Longrightarrow> distinct (dict_keys (dict_set d k v))"
  by (simp add: dict_set_def dict_keys_def distinct_update)

lemma dict_update_map_of:
  "distinct (dict_keys e) \<Longrightarrow> map_of (dict_update d e) = map_of d ++ map_of e"
proof (induction e arbitrary: d)
  case Nil
  then show ?case by (simp add: dict_update_def)
next
  case (Cons x e)
  obtain k v where x: "x = (k, v)" by (cases x)
  from Cons.prems x have k: "k \<notin> set (dict_keys e)" and d: "distinct (dict_keys e)"
    by simp_all
  have "dict_update d (x # e) = dict_update (dict_set d k v) e"
    by (simp add: dict_update_def x)
  moreover have "map_of (dict_update (dict_set d k v) e) = map_of (dict_set d k v) ++ map_of e"
    by (rule Cons.IH [OF d])
  ultimately have "map_of (dict_update d (x # e)) = (map_of d)(k \<mapsto> v) ++ map_of e"
    by (simp only: dict_set_map_of)
  also have "\<dots> = map_of d ++ map_of (x # e)"
  proof
    fix y
    from k have "map_of e k = None" by (simp add: dict_keys_def map_of_eq_None_iff)
    then show "((map_of d)(k \<mapsto> v) ++ map_of e) y = (map_of d ++ map_of (x # e)) y"
      by (auto simp: x map_add_def split: option.splits)
  qed
  finally show ?case .
qed

lemma dict_update_keys:
  "set (dict_keys (dict_update d e)) = set (dict_keys d) \<union> set (dict_keys e)"
proof (induction e arbitrary: d)
  case Nil
  then show ?case by (simp add: dict_update_def)
next
  case (Cons x e)
  obtain k v where x: "x = (k, v)" by (cases x)
  have "dict_update d (x # e) = dict_update (dict_set d k v) e"
    by (simp add: dict_update_def x)
  then show ?case using Cons.IH [of "dict_set d k v"]
    by (auto simp: dict_set_keys x)
qed

lemma dict_update_distinct:
  "distinct (dict_keys d) \<Longrightarrow> distinct (dict_keys (dict_update d e))"
proof (induction e arbitrary: d)
  case Nil
  then show ?case by (simp add: dict_update_def)
next
  case (Cons x e)
  obtain k v where x: "x = (k, v)" by (cases x)
  have "dict_update d (x # e) = dict_update (dict_set d k v) e"
    by (simp add: dict_update_def x)
  then show ?case using Cons.IH [of "dict_set d k v"] Cons.prems
    by (simp add: dict_set_distinct)
qed

lemma dict_keys_dom: "set (dict_keys d) = dom (map_of d)"
  by (simp add: dict_keys_def dom_map_of_conv_image_fst)

lemma compose_map_of:
  "distinct (dict_keys d1) \<Longrightarrow> map_of (compose d1 d2) = map_of d2 \<circ>\<^sub>m map_of d1"
proof (induction d1)
  case Nil
  then show ?case by (simp add: compose_def)
next
  case (Cons x d1)
  obtain k v where x: "x = (k, v)" by (cases x)
  from Cons.prems x have k: "k \<notin> set (dict_keys d1)" and d: "distinct (dict_keys d1)"
    by simp_all
  have c: "compose ((k, v) # d1) d2 =
      (case map_of d2 v of None \<Rightarrow> [] | Some w \<Rightarrow> [(k, w)]) @ compose d1 d2"
    by (simp add: compose_def)
  have k1: "map_of d1 k = None" using k by (simp add: dict_keys_dom domIff)
  have ih: "map_of (compose d1 d2) = map_of d2 \<circ>\<^sub>m map_of d1" by (rule Cons.IH [OF d])
  show ?case
  proof
    fix y
    show "map_of (compose (x # d1) d2) y = (map_of d2 \<circ>\<^sub>m map_of (x # d1)) y"
    proof (cases "map_of d2 v")
      case None
      then show ?thesis using k1 by (simp add: c x ih map_comp_def)
    next
      case (Some w)
      then show ?thesis by (simp add: c x ih map_comp_def)
    qed
  qed
qed

lemma compose_keys_subset: "set (dict_keys (compose d1 d2)) \<subseteq> set (dict_keys d1)"
proof (induction d1)
  case Nil
  then show ?case by (simp add: compose_def)
next
  case (Cons x d1)
  obtain k v where x: "x = (k, v)" by (cases x)
  have c: "compose ((k, v) # d1) d2 =
      (case map_of d2 v of None \<Rightarrow> [] | Some w \<Rightarrow> [(k, w)]) @ compose d1 d2"
    by (simp add: compose_def)
  have "set (dict_keys (compose ((k, v) # d1) d2)) \<subseteq> insert k (set (dict_keys (compose d1 d2)))"
    by (cases "map_of d2 v") (auto simp: c dict_keys_def)
  with Cons.IH show ?case by (auto simp: x)
qed

lemma compose_distinct: "distinct (dict_keys d1) \<Longrightarrow> distinct (dict_keys (compose d1 d2))"
proof (induction d1)
  case Nil
  then show ?case by (simp add: compose_def)
next
  case (Cons x d1)
  obtain k v where x: "x = (k, v)" by (cases x)
  from Cons.prems x have k: "k \<notin> set (dict_keys d1)" and d: "distinct (dict_keys d1)"
    by simp_all
  have c: "compose ((k, v) # d1) d2 =
      (case map_of d2 v of None \<Rightarrow> [] | Some w \<Rightarrow> [(k, w)]) @ compose d1 d2"
    by (simp add: compose_def)
  from k compose_keys_subset have "k \<notin> set (dict_keys (compose d1 d2))" by blast
  with Cons.IH [OF d] show ?case
    by (cases "map_of d2 v") (simp_all add: x c dict_keys_def)
qed

lemma merge_typing_map_of:
  "map_of (merge_typing d g m) =
     (map_of d)(g \<mapsto> (case map_of d g of None \<Rightarrow> m | Some cur \<Rightarrow> dict_update cur m))"
  by (simp add: merge_typing_def dict_set_map_of split: option.splits)

lemma merge_typing_keys: "set (dict_keys (merge_typing d g m)) = insert g (set (dict_keys d))"
  by (simp add: merge_typing_def dict_set_keys split: option.splits)

lemma merge_typing_distinct:
  "distinct (dict_keys d) \<Longrightarrow> distinct (dict_keys (merge_typing d g m))"
  by (simp add: merge_typing_def dict_set_distinct split: option.splits)

lemma fold_merge_map_of:
  assumes "distinct (dict_keys pa)"
  shows "map_of (fold (\<lambda>(a, m) acc. merge_typing acc a (f m)) pa acc0) x =
     (case map_of pa x of
        None \<Rightarrow> map_of acc0 x
      | Some m \<Rightarrow> Some (case map_of acc0 x of None \<Rightarrow> f m | Some cur \<Rightarrow> dict_update cur (f m)))"
  using assms
proof (induction pa arbitrary: acc0)
  case Nil
  then show ?case by simp
next
  case (Cons y pa)
  obtain a m where y: "y = (a, m)" by (cases y)
  from Cons.prems y have a: "a \<notin> set (dict_keys pa)" and d: "distinct (dict_keys pa)"
    by simp_all
  from a have an: "map_of pa a = None" by (simp add: dict_keys_dom domIff)
  show ?case
    using Cons.IH [OF d, of "merge_typing acc0 a (f m)"] an
    by (auto simp: y merge_typing_map_of split: option.splits)
qed

lemma fold_merge_keys:
  "set (dict_keys (fold (\<lambda>(a, m) acc. merge_typing acc a (f m)) pa acc0)) =
     set (dict_keys acc0) \<union> set (dict_keys pa)"
proof (induction pa arbitrary: acc0)
  case Nil
  then show ?case by simp
next
  case (Cons y pa)
  obtain a m where y: "y = (a, m)" by (cases y)
  show ?case using Cons.IH [of "merge_typing acc0 a (f m)"]
    by (auto simp: y merge_typing_keys)
qed

lemma fold_merge_distinct:
  "distinct (dict_keys acc0) \<Longrightarrow>
   distinct (dict_keys (fold (\<lambda>(a, m) acc. merge_typing acc a (f m)) pa acc0))"
proof (induction pa arbitrary: acc0)
  case Nil
  then show ?case by simp
next
  case (Cons y pa)
  obtain a m where y: "y = (a, m)" by (cases y)
  show ?case using Cons.IH [of "merge_typing acc0 a (f m)"] Cons.prems
    by (simp add: y merge_typing_distinct)
qed

subsection \<open>Paths and the maps along them\<close>

fun chain_map :: "hierarchy \<Rightarrow> gid \<Rightarrow> gid list \<Rightarrow> (node \<rightharpoonup> node)" where
  "chain_map H s [] = Some"
| "chain_map H s (t # rest) = chain_map H t rest \<circ>\<^sub>m map_of (get_typing H s t)"

definition nodes_of :: "hierarchy \<Rightarrow> gid \<Rightarrow> node set" where
  "nodes_of H g = (case get_graph H g of Inr G \<Rightarrow> set (node_ids G) | Inl e \<Rightarrow> {})"

definition typing_total :: "hierarchy \<Rightarrow> (gid \<times> gid) \<times> mapping \<times> attrs \<Rightarrow> bool" where
  "typing_total H e =
     (case e of ((s, t), m, a) \<Rightarrow>
        distinct (dict_keys m) \<and> set (dict_keys m) = nodes_of H s \<and>
        snd ` set m \<subseteq> nodes_of H t)"

definition typings_total :: "hierarchy \<Rightarrow> bool" where
  "typings_total H = list_all (typing_total H) (typing_store H)"

definition commuting :: "hierarchy \<Rightarrow> bool" where
  "commuting H \<longleftrightarrow>
     (\<forall>p q. is_path (typings H) p \<and> is_path (typings H) q \<and> hd p = hd q \<and> last p = last q
        \<longrightarrow> map_of (path_typing H p) = map_of (path_typing H q))"

definition typed_by :: "hierarchy \<Rightarrow> gid \<Rightarrow> gid \<Rightarrow> mapping \<Rightarrow> bool" where
  "typed_by H a g m \<longleftrightarrow>
     distinct (dict_keys m) \<and>
     (\<exists>p. is_path (typings H) p \<and> hd p = a \<and> last p = g \<and>
          map_of m = map_of (path_typing H p))"

lemma map_comp_assoc: "(f \<circ>\<^sub>m g) \<circ>\<^sub>m h = f \<circ>\<^sub>m (g \<circ>\<^sub>m h)"
  by (rule ext) (simp add: map_comp_def split: option.splits)

lemma map_comp_Some_left [simp]: "Some \<circ>\<^sub>m f = f"
  by (rule ext) (simp add: map_comp_def split: option.splits)

lemma stored_typing:
  assumes "typings_total H" and "(s, t) \<in> set (typings H)"
  shows "distinct (dict_keys (get_typing H s t))"
    and "dom (map_of (get_typing H s t)) = nodes_of H s"
    and "ran (map_of (get_typing H s t)) \<subseteq> nodes_of H t"
proof -
  from assms(2) obtain m a where l: "map_of (typing_store H) (s, t) = Some (m, a)"
    by (cases "map_of (typing_store H) (s, t)") (auto simp: typings_def map_of_eq_None_iff)
  then have "((s, t), m, a) \<in> set (typing_store H)" by (rule map_of_SomeD)
  with assms(1) have "typing_total H ((s, t), m, a)"
    by (simp add: typings_total_def list_all_iff)
  then have d: "distinct (dict_keys m)" and k: "set (dict_keys m) = nodes_of H s"
    and r: "snd ` set m \<subseteq> nodes_of H t"
    by (simp_all add: typing_total_def)
  from l have g: "get_typing H s t = m" by (simp add: get_typing_def)
  show "distinct (dict_keys (get_typing H s t))" using d g by simp
  show "dom (map_of (get_typing H s t)) = nodes_of H s" using k g by (simp add: dict_keys_dom)
  show "ran (map_of (get_typing H s t)) \<subseteq> nodes_of H t"
    using r g by (auto simp: ran_def dest!: map_of_SomeD intro: rev_image_eqI)
qed

lemma compose_along_map:
  "distinct (dict_keys hom) \<Longrightarrow>
   map_of (compose_along H hom s rest) = chain_map H s rest \<circ>\<^sub>m map_of hom \<and>
   distinct (dict_keys (compose_along H hom s rest))"
proof (induction rest arbitrary: hom s)
  case Nil
  then show ?case by simp
next
  case (Cons t rest)
  have d: "distinct (dict_keys (compose hom (get_typing H s t)))"
    using Cons.prems by (rule compose_distinct)
  from Cons.IH [OF d, of t] show ?case
    by (simp add: compose_map_of [OF Cons.prems] map_comp_assoc)
qed

lemma path_typing_map:
  assumes "distinct (dict_keys (get_typing H s t))"
  shows "map_of (path_typing H (s # t # rest)) = chain_map H s (t # rest)"
    and "distinct (dict_keys (path_typing H (s # t # rest)))"
  using compose_along_map [OF assms, of H t rest] by simp_all

lemma is_path_edges: "is_path E (s # t # rest) \<Longrightarrow> (s, t) \<in> set E"
  by simp

lemma is_path_shape: "is_path E pth \<Longrightarrow> \<exists>s t rest. pth = s # t # rest"
  by (induction E pth rule: is_path.induct) auto

lemma is_path_snoc:
  "is_path E pth \<Longrightarrow> (last pth, g) \<in> set E \<Longrightarrow> is_path E (pth @ [g])"
proof (induction E pth rule: is_path.induct)
  case (1 E s t rest)
  then show ?case by (cases rest) auto
qed simp_all

lemma chain_map_snoc:
  "chain_map H s (rest @ [g]) = map_of (get_typing H (last (s # rest)) g) \<circ>\<^sub>m chain_map H s rest"
proof (induction rest arbitrary: s)
  case Nil
  show ?case by (rule ext) (simp add: map_comp_def split: option.splits)
next
  case (Cons t rest)
  show ?case using Cons.IH [of t] by (simp add: map_comp_assoc)
qed

lemma path_typing_snoc:
  assumes tot: "typings_total H" and pa: "is_path (typings H) pth"
  shows "map_of (path_typing H (pth @ [g])) =
     map_of (get_typing H (last pth) g) \<circ>\<^sub>m map_of (path_typing H pth)"
proof -
  from is_path_shape [OF pa] obtain s t rest where sh: "pth = s # t # rest" by blast
  with pa have "(s, t) \<in> set (typings H)" by simp
  with tot have d: "distinct (dict_keys (get_typing H s t))" by (rule stored_typing)
  have "map_of (path_typing H (s # t # (rest @ [g]))) = chain_map H s ((t # rest) @ [g])"
    using path_typing_map(1) [OF d] by simp
  also have "\<dots> = map_of (get_typing H (last (s # t # rest)) g) \<circ>\<^sub>m chain_map H s (t # rest)"
    by (rule chain_map_snoc)
  also have "chain_map H s (t # rest) = map_of (path_typing H (s # t # rest))"
    using path_typing_map(1) [OF d] by simp
  finally show ?thesis by (simp add: sh)
qed

lemma path_typing_cons:
  assumes tot: "typings_total H" and q: "is_path (typings H) q"
    and e: "(g, hd q) \<in> set (typings H)"
  shows "map_of (path_typing H (g # q)) =
     map_of (path_typing H q) \<circ>\<^sub>m map_of (get_typing H g (hd q))"
proof -
  from is_path_shape [OF q] obtain s t rest where sh: "q = s # t # rest" by blast
  with q have "(s, t) \<in> set (typings H)" by simp
  with tot have d: "distinct (dict_keys (get_typing H s t))" by (rule stored_typing)
  from tot e sh have dg: "distinct (dict_keys (get_typing H g s))"
    using stored_typing(1) by simp
  have "map_of (path_typing H (g # s # t # rest)) = chain_map H g (s # t # rest)"
    by (rule path_typing_map(1) [OF dg])
  also have "\<dots> = chain_map H s (t # rest) \<circ>\<^sub>m map_of (get_typing H g s)" by simp
  also have "chain_map H s (t # rest) = map_of (path_typing H (s # t # rest))"
    using path_typing_map(1) [OF d] by simp
  finally show ?thesis by (simp add: sh)
qed

lemma path_typing_distinct:
  assumes tot: "typings_total H" and pa: "is_path (typings H) pth"
  shows "distinct (dict_keys (path_typing H pth))"
proof -
  from is_path_shape [OF pa] obtain s t rest where sh: "pth = s # t # rest" by blast
  with pa have "(s, t) \<in> set (typings H)" by simp
  with tot have d: "distinct (dict_keys (get_typing H s t))" by (rule stored_typing)
  then show ?thesis unfolding sh by (rule path_typing_map(2))
qed

lemma chain_map_range:
  assumes tot: "typings_total H"
  shows "is_path (typings H) (s # t # rest) \<Longrightarrow> chain_map H s (t # rest) x = Some y
         \<Longrightarrow> y \<in> nodes_of H (last (s # t # rest))"
proof (induction rest arbitrary: s t x)
  case Nil
  then have e: "(s, t) \<in> set (typings H)" by simp
  from Nil have "map_of (get_typing H s t) x = Some y" by (simp add: map_comp_def split: option.splits)
  then have "y \<in> ran (map_of (get_typing H s t))" by (auto simp: ran_def)
  with stored_typing(3) [OF tot e] show ?case by auto
next
  case (Cons u rest)
  from Cons.prems(1) have pa: "is_path (typings H) (t # u # rest)" by simp
  from Cons.prems(2) obtain z where "map_of (get_typing H s t) x = Some z"
    and "chain_map H t (u # rest) z = Some y"
    by (auto simp: map_comp_def split: option.splits)
  with Cons.IH [OF pa] show ?case by simp
qed

lemma path_typing_range:
  assumes tot: "typings_total H" and pa: "is_path (typings H) pth"
    and x: "map_of (path_typing H pth) x = Some y"
  shows "y \<in> nodes_of H (last pth)"
proof -
  from is_path_shape [OF pa] obtain s t rest where sh: "pth = s # t # rest" by blast
  with pa have "(s, t) \<in> set (typings H)" by simp
  with tot have d: "distinct (dict_keys (get_typing H s t))" by (rule stored_typing)
  from x have "chain_map H s (t # rest) x = Some y"
    using path_typing_map(1) [OF d, of rest] by (simp add: sh)
  with chain_map_range [OF tot] pa sh show ?thesis by blast
qed

subsection \<open>Entries that are typings along a path\<close>

definition ancestors_of :: "hierarchy \<Rightarrow> gid \<Rightarrow> gid set" where
  "ancestors_of H g = {a. (a, g) \<in> (set (typings H))\<^sup>+}"

definition descendants_of :: "hierarchy \<Rightarrow> gid \<Rightarrow> gid set" where
  "descendants_of H g = {d. (g, d) \<in> (set (typings H))\<^sup>+}"

definition entries_good :: "(gid \<Rightarrow> mapping \<Rightarrow> bool) \<Rightarrow> gid set \<Rightarrow> (gid \<times> mapping) list \<Rightarrow> bool" where
  "entries_good P S d \<longleftrightarrow>
     distinct (dict_keys d) \<and> set (dict_keys d) = S \<and> (\<forall>a m. map_of d a = Some m \<longrightarrow> P a m)"

lemma typed_single:
  assumes "typings_total H" and "(s, t) \<in> set (typings H)"
  shows "typed_by H s t (get_typing H s t)"
proof -
  have "is_path (typings H) [s, t]" using assms(2) by simp
  moreover have "path_typing H [s, t] = get_typing H s t" by simp
  ultimately show ?thesis
    unfolding typed_by_def using stored_typing(1) [OF assms]
    by (metis last.simps list.sel(1) list.discI)
qed

lemma typed_snoc:
  assumes tot: "typings_total H" and m: "typed_by H a x m" and e: "(x, g) \<in> set (typings H)"
  shows "typed_by H a g (compose m (get_typing H x g))"
proof -
  from m obtain q where d: "distinct (dict_keys m)" and q: "is_path (typings H) q"
    and h: "hd q = a" and l: "last q = x" and eq: "map_of m = map_of (path_typing H q)"
    by (auto simp: typed_by_def)
  from is_path_shape [OF q] obtain s t rest where sh: "q = s # t # rest" by blast
  have 1: "is_path (typings H) (q @ [g])" using q e l by (simp add: is_path_snoc)
  have 2: "hd (q @ [g]) = a" using h sh by simp
  have 3: "last (q @ [g]) = g" by simp
  have "map_of (compose m (get_typing H x g)) = map_of (get_typing H x g) \<circ>\<^sub>m map_of m"
    using d by (rule compose_map_of)
  also have "\<dots> = map_of (path_typing H (q @ [g]))"
    using path_typing_snoc [OF tot q, of g] l eq by simp
  finally have 4: "map_of (compose m (get_typing H x g)) = map_of (path_typing H (q @ [g]))" .
  have 5: "distinct (dict_keys (compose m (get_typing H x g)))" using d by (rule compose_distinct)
  from 1 2 3 4 5 show ?thesis unfolding typed_by_def by blast
qed

lemma typed_cons:
  assumes tot: "typings_total H" and e: "(g, s) \<in> set (typings H)" and m: "typed_by H s d typ"
  shows "typed_by H g d (compose (get_typing H g s) typ)"
proof -
  from m obtain q where q: "is_path (typings H) q"
    and h: "hd q = s" and l: "last q = d" and eq: "map_of typ = map_of (path_typing H q)"
    by (auto simp: typed_by_def)
  from is_path_shape [OF q] obtain s' t rest where sh: "q = s' # t # rest" by blast
  with h have s': "s' = s" by simp
  have dg: "distinct (dict_keys (get_typing H g s))" using tot e by (rule stored_typing)
  have 1: "is_path (typings H) (g # q)" using q e sh s' by simp
  have 2: "hd (g # q) = g" by simp
  have 3: "last (g # q) = d" using l sh by simp
  have "map_of (compose (get_typing H g s) typ) = map_of typ \<circ>\<^sub>m map_of (get_typing H g s)"
    using dg by (rule compose_map_of)
  also have "\<dots> = map_of (path_typing H (g # q))"
    using path_typing_cons [OF tot q, of g] e h eq by simp
  finally have 4: "map_of (compose (get_typing H g s) typ) = map_of (path_typing H (g # q))" .
  have 5: "distinct (dict_keys (compose (get_typing H g s) typ))" using dg by (rule compose_distinct)
  from 1 2 3 4 5 show ?thesis unfolding typed_by_def by blast
qed

lemma typed_unique:
  assumes "commuting H" and "typed_by H a g m" and "typed_by H a g m'"
  shows "map_of m = map_of m'"
  using assms unfolding commuting_def typed_by_def by metis

lemma map_add_cover: "dom f \<subseteq> dom g \<Longrightarrow> f ++ g = g"
  by (rule ext) (auto simp: map_add_def split: option.splits)

lemma typed_update_same:
  assumes c: "typed_by H a g cur" and e: "typed_by H a g e" and com: "commuting H"
  shows "typed_by H a g (dict_update cur e)"
proof -
  have same: "map_of e = map_of cur" using com e c by (rule typed_unique)
  from e have de: "distinct (dict_keys e)" by (simp add: typed_by_def)
  from c have dc: "distinct (dict_keys cur)" by (simp add: typed_by_def)
  have "map_of (dict_update cur e) = map_of cur ++ map_of e" using de by (rule dict_update_map_of)
  also have "\<dots> = map_of cur" unfolding same by (rule map_add_cover) simp
  finally have "map_of (dict_update cur e) = map_of cur" .
  moreover have "distinct (dict_keys (dict_update cur e))" using dc by (rule dict_update_distinct)
  ultimately show ?thesis using c unfolding typed_by_def by auto
qed

lemma typed_update_stale:
  assumes tot: "typings_total H" and m: "typed_by H a x m" and e: "(x, g) \<in> set (typings H)"
  shows "typed_by H a g (dict_update m (compose m (get_typing H x g)))"
proof -
  let ?c = "compose m (get_typing H x g)"
  have c: "typed_by H a g ?c" using tot m e by (rule typed_snoc)
  from m obtain q where d: "distinct (dict_keys m)" and q: "is_path (typings H) q"
    and l: "last q = x" and eq: "map_of m = map_of (path_typing H q)"
    by (auto simp: typed_by_def)
  have "dom (map_of m) \<subseteq> dom (map_of ?c)"
  proof
    fix n assume "n \<in> dom (map_of m)"
    then obtain y where y: "map_of m n = Some y" by auto
    then have "y \<in> nodes_of H x" using path_typing_range [OF tot q] eq l by auto
    then have "y \<in> dom (map_of (get_typing H x g))" using stored_typing(2) [OF tot e] by simp
    then show "n \<in> dom (map_of ?c)"
      using y by (auto simp: compose_map_of [OF d] map_comp_def)
  qed
  then have "map_of m ++ map_of ?c = map_of ?c" by (rule map_add_cover)
  moreover from c have dc: "distinct (dict_keys ?c)" by (simp add: typed_by_def)
  then have "map_of (dict_update m ?c) = map_of m ++ map_of ?c" by (rule dict_update_map_of)
  ultimately have "map_of (dict_update m ?c) = map_of ?c" by simp
  moreover have "distinct (dict_keys (dict_update m ?c))" using d by (rule dict_update_distinct)
  ultimately show ?thesis using c unfolding typed_by_def by auto
qed

lemma fold_merge_good:
  assumes d0: "distinct (dict_keys acc0)" and dpa: "distinct (dict_keys pa)"
    and keep: "\<And>a m. map_of pa a = None \<Longrightarrow> map_of acc0 a = Some m \<Longrightarrow> P a m"
    and new: "\<And>a m. map_of pa a = Some m \<Longrightarrow> map_of acc0 a = None \<Longrightarrow> P a (f m)"
    and upd: "\<And>a m cur. map_of pa a = Some m \<Longrightarrow> map_of acc0 a = Some cur
                \<Longrightarrow> P a (dict_update cur (f m))"
  shows "entries_good P (set (dict_keys acc0) \<union> set (dict_keys pa))
           (fold (\<lambda>(a, m) acc. merge_typing acc a (f m)) pa acc0)"
proof -
  let ?res = "fold (\<lambda>(a, m) acc. merge_typing acc a (f m)) pa acc0"
  have 1: "distinct (dict_keys ?res)" using d0 by (rule fold_merge_distinct)
  have 2: "set (dict_keys ?res) = set (dict_keys acc0) \<union> set (dict_keys pa)"
    by (rule fold_merge_keys)
  have 3: "P a mm" if r: "map_of ?res a = Some mm" for a mm
  proof (cases "map_of pa a")
    case None
    with r have "map_of acc0 a = Some mm" by (simp add: fold_merge_map_of [OF dpa])
    with None show ?thesis by (rule keep)
  next
    case (Some m)
    show ?thesis
    proof (cases "map_of acc0 a")
      case None
      with r Some have "mm = f m" by (simp add: fold_merge_map_of [OF dpa])
      with new [OF Some None] show ?thesis by simp
    next
      case (Some cur)
      with r \<open>map_of pa a = Some m\<close> have "mm = dict_update cur (f m)"
        by (simp add: fold_merge_map_of [OF dpa])
      with upd [OF \<open>map_of pa a = Some m\<close> Some] show ?thesis by simp
    qed
  qed
  from 1 2 3 show ?thesis unfolding entries_good_def by blast
qed

lemma ancestors_step_good:
  assumes tot: "typings_total H" and com: "commuting H" and acyc: "acyclic (set (typings H))"
    and e: "(pred, g) \<in> set (typings H)"
    and anc: "entries_good (\<lambda>a m. typed_by H a g m) S anc"
    and pa: "entries_good (\<lambda>a m. typed_by H a pred m) (ancestors_of H pred) pa"
  shows "entries_good (\<lambda>a m. typed_by H a g m) (S \<union> insert pred (ancestors_of H pred))
           (ancestors_step pred (get_typing H pred g) pa anc)"
proof -
  let ?t = "get_typing H pred g"
  let ?anc1 = "if pred \<in> set (dict_keys anc) then dict_update anc pa else dict_set anc pred ?t"
  from anc have da: "distinct (dict_keys anc)" and ka: "set (dict_keys anc) = S"
    and va: "\<And>a m. map_of anc a = Some m \<Longrightarrow> typed_by H a g m"
    by (auto simp: entries_good_def)
  from pa have dp: "distinct (dict_keys pa)" and kp: "set (dict_keys pa) = ancestors_of H pred"
    and vp: "\<And>a m. map_of pa a = Some m \<Longrightarrow> typed_by H a pred m"
    by (auto simp: entries_good_def)
  from acyc have "pred \<notin> ancestors_of H pred" by (auto simp: ancestors_of_def acyclic_def)
  with kp have "pred \<notin> set (dict_keys pa)" by simp
  then have pn: "map_of pa pred = None" unfolding dict_keys_dom by (simp add: domIff)
  have d1: "distinct (dict_keys ?anc1)"
    using da by (simp add: dict_update_distinct dict_set_distinct)
  have k1: "set (dict_keys ?anc1) \<union> set (dict_keys pa) = S \<union> insert pred (ancestors_of H pred)"
    using ka kp by (auto simp: dict_update_keys dict_set_keys)
  have m1: "map_of ?anc1 = (if pred \<in> set (dict_keys anc) then map_of anc ++ map_of pa
                           else (map_of anc)(pred \<mapsto> ?t))"
    using dp by (simp add: dict_update_map_of dict_set_map_of)
  have "entries_good (\<lambda>a m. typed_by H a g m) (set (dict_keys ?anc1) \<union> set (dict_keys pa))
      (fold (\<lambda>(a, m) acc. merge_typing acc a (compose m ?t)) pa ?anc1)"
  proof (rule fold_merge_good [OF d1 dp])
    fix a m assume n: "map_of pa a = None" and s: "map_of ?anc1 a = Some m"
    show "typed_by H a g m"
    proof (cases "pred \<in> set (dict_keys anc)")
      case True
      with s n m1 have "map_of anc a = Some m" by (simp add: map_add_def)
      then show ?thesis by (rule va)
    next
      case False
      show ?thesis
      proof (cases "a = pred")
        case True
        with s m1 \<open>pred \<notin> set (dict_keys anc)\<close> have "m = ?t" by simp
        with True typed_single [OF tot e] show ?thesis by simp
      next
        case False
        with s m1 \<open>pred \<notin> set (dict_keys anc)\<close> have "map_of anc a = Some m" by simp
        then show ?thesis by (rule va)
      qed
    qed
  next
    fix a m assume p: "map_of pa a = Some m" and "map_of ?anc1 a = None"
    from vp [OF p] show "typed_by H a g (compose m ?t)" using tot e typed_snoc by blast
  next
    fix a m cur assume p: "map_of pa a = Some m" and s: "map_of ?anc1 a = Some cur"
    from p pn have ne: "a \<noteq> pred" by auto
    have tm: "typed_by H a pred m" using p by (rule vp)
    show "typed_by H a g (dict_update cur (compose m ?t))"
    proof (cases "pred \<in> set (dict_keys anc)")
      case True
      with s p m1 have "cur = m" by (simp add: map_add_def)
      with typed_update_stale [OF tot tm e] show ?thesis by simp
    next
      case False
      with s m1 ne have "map_of anc a = Some cur" by simp
      then have "typed_by H a g cur" by (rule va)
      moreover have "typed_by H a g (compose m ?t)" using tot tm e by (rule typed_snoc)
      ultimately show ?thesis using com by (rule typed_update_same)
    qed
  qed
  then show ?thesis unfolding k1 by (simp add: ancestors_step_def Let_def)
qed

lemma descendants_step_good:
  assumes tot: "typings_total H" and com: "commuting H" and acyc: "acyclic (set (typings H))"
    and e: "(g, s) \<in> set (typings H)"
    and desc: "entries_good (\<lambda>d m. typed_by H g d m) S descendants"
    and sd: "entries_good (\<lambda>d m. typed_by H s d m) (descendants_of H s) typing_descendants"
  shows "entries_good (\<lambda>d m. typed_by H g d m) (S \<union> insert s (descendants_of H s))
           (descendants_step s (get_typing H g s) typing_descendants descendants)"
proof -
  let ?t = "get_typing H g s"
  let ?d1 = "merge_typing descendants s ?t"
  from desc have dd: "distinct (dict_keys descendants)" and kd: "set (dict_keys descendants) = S"
    and vd: "\<And>a m. map_of descendants a = Some m \<Longrightarrow> typed_by H g a m"
    by (auto simp: entries_good_def)
  from sd have ds: "distinct (dict_keys typing_descendants)"
    and ks: "set (dict_keys typing_descendants) = descendants_of H s"
    and vs: "\<And>a m. map_of typing_descendants a = Some m \<Longrightarrow> typed_by H s a m"
    by (auto simp: entries_good_def)
  have ts: "typed_by H g s ?t" using tot e by (rule typed_single)
  have d1: "distinct (dict_keys ?d1)" using dd by (rule merge_typing_distinct)
  have k1: "set (dict_keys ?d1) \<union> set (dict_keys typing_descendants)
      = S \<union> insert s (descendants_of H s)"
    using kd ks by (auto simp: merge_typing_keys)
  have v1: "typed_by H g a m" if "map_of ?d1 a = Some m" for a m
  proof (cases "a = s")
    case True
    show ?thesis
    proof (cases "map_of descendants s")
      case None
      with that True have "m = ?t" by (simp add: merge_typing_map_of)
      with ts True show ?thesis by simp
    next
      case (Some cur)
      with that True have "m = dict_update cur ?t" by (simp add: merge_typing_map_of)
      moreover have "typed_by H g s cur" using Some by (rule vd)
      ultimately show ?thesis using True typed_update_same [OF _ ts com] by simp
    qed
  next
    case False
    with that have "map_of descendants a = Some m" by (simp add: merge_typing_map_of)
    then show ?thesis by (rule vd)
  qed
  have "entries_good (\<lambda>d m. typed_by H g d m)
      (set (dict_keys ?d1) \<union> set (dict_keys typing_descendants))
      (fold (\<lambda>(a, m) acc. merge_typing acc a (compose ?t m)) typing_descendants ?d1)"
  proof (rule fold_merge_good [OF d1 ds])
    fix a m assume "map_of typing_descendants a = None" and "map_of ?d1 a = Some m"
    then show "typed_by H g a m" using v1 by blast
  next
    fix a m assume p: "map_of typing_descendants a = Some m" and "map_of ?d1 a = None"
    from vs [OF p] show "typed_by H g a (compose ?t m)" using tot e typed_cons by blast
  next
    fix a m cur assume p: "map_of typing_descendants a = Some m" and s: "map_of ?d1 a = Some cur"
    have "typed_by H g a cur" using s by (rule v1)
    moreover have "typed_by H g a (compose ?t m)" using tot e vs [OF p] by (rule typed_cons)
    ultimately show "typed_by H g a (dict_update cur (compose ?t m))"
      using com by (rule typed_update_same)
  qed
  then show ?thesis unfolding k1 by (simp add: descendants_step_def Let_def)
qed

lemma fold_opt_cases:
  "fold_opt (\<lambda>x s. case g x of None \<Rightarrow> None | Some y \<Rightarrow> Some (h x y s)) xs s0 =
     (if \<forall>x\<in>set xs. g x \<noteq> None then Some (fold (\<lambda>x s. h x (the (g x)) s) xs s0) else None)"
proof (induction xs arbitrary: s0)
  case Nil
  show ?case by simp
next
  case (Cons x xs)
  show ?case
  proof (cases "g x")
    case None
    then show ?thesis by auto
  next
    case (Some y)
    then show ?thesis using Cons.IH [of "h x y s0"] by simp
  qed
qed

lemma predecessors_set: "set (predecessors H g) = {x. (x, g) \<in> set (typings H)}"
  by (auto simp: predecessors_def intro: rev_image_eqI)

lemma successors_set: "set (successors H g) = {x. (g, x) \<in> set (typings H)}"
  by (auto simp: successors_def intro: rev_image_eqI)

lemma ancestors_of_unfold:
  "ancestors_of H g = (\<Union>x\<in>set (predecessors H g). insert x (ancestors_of H x))"
proof -
  have "(a, g) \<in> (set (typings H))\<^sup>+ \<longleftrightarrow>
        (\<exists>x. (x, g) \<in> set (typings H) \<and> (a = x \<or> (a, x) \<in> (set (typings H))\<^sup>+))" for a
    by (metis tranclE trancl.intros)
  then show ?thesis unfolding ancestors_of_def predecessors_set by auto
qed

lemma descendants_of_unfold:
  "descendants_of H g = (\<Union>x\<in>set (successors H g). insert x (descendants_of H x))"
proof -
  have "(g, d) \<in> (set (typings H))\<^sup>+ \<longleftrightarrow>
        (\<exists>x. (g, x) \<in> set (typings H) \<and> (d = x \<or> (x, d) \<in> (set (typings H))\<^sup>+))" for d
    by (metis converse_tranclE trancl_into_trancl2 r_into_trancl')
  then show ?thesis unfolding descendants_of_def successors_set by auto
qed

lemma ancestors_fold_good:
  assumes tot: "typings_total H" and com: "commuting H" and acyc: "acyclic (set (typings H))"
    and xs: "\<And>x. x \<in> set xs \<Longrightarrow> (x, g) \<in> set (typings H) \<and>
               entries_good (\<lambda>a m. typed_by H a x m) (ancestors_of H x) (R x)"
    and acc: "entries_good (\<lambda>a m. typed_by H a g m) S acc"
  shows "entries_good (\<lambda>a m. typed_by H a g m) (S \<union> (\<Union>x\<in>set xs. insert x (ancestors_of H x)))
           (fold (\<lambda>x s. ancestors_step x (get_typing H x g) (R x) s) xs acc)"
  using xs acc
proof (induction xs arbitrary: S acc)
  case Nil
  then show ?case by simp
next
  case (Cons x xs)
  from Cons.prems(1) [of x] have e: "(x, g) \<in> set (typings H)"
    and r: "entries_good (\<lambda>a m. typed_by H a x m) (ancestors_of H x) (R x)" by simp_all
  have 1: "entries_good (\<lambda>a m. typed_by H a g m) (S \<union> insert x (ancestors_of H x))
             (ancestors_step x (get_typing H x g) (R x) acc)"
    using tot com acyc e Cons.prems(2) r by (rule ancestors_step_good)
  have 2: "\<And>y. y \<in> set xs \<Longrightarrow> (y, g) \<in> set (typings H) \<and>
               entries_good (\<lambda>a m. typed_by H a y m) (ancestors_of H y) (R y)"
    using Cons.prems(1) by simp
  have 3: "S \<union> insert x (ancestors_of H x) \<union> (\<Union>x\<in>set xs. insert x (ancestors_of H x))
       = S \<union> (\<Union>x\<in>set (x # xs). insert x (ancestors_of H x))" by auto
  from Cons.IH [OF 2 1] show ?case unfolding 3 by simp
qed

lemma descendants_fold_good:
  assumes tot: "typings_total H" and com: "commuting H" and acyc: "acyclic (set (typings H))"
    and xs: "\<And>x. x \<in> set xs \<Longrightarrow> (g, x) \<in> set (typings H) \<and>
               entries_good (\<lambda>d m. typed_by H x d m) (descendants_of H x) (R x)"
    and acc: "entries_good (\<lambda>d m. typed_by H g d m) S acc"
  shows "entries_good (\<lambda>d m. typed_by H g d m) (S \<union> (\<Union>x\<in>set xs. insert x (descendants_of H x)))
           (fold (\<lambda>x s. descendants_step x (get_typing H g x) (R x) s) xs acc)"
  using xs acc
proof (induction xs arbitrary: S acc)
  case Nil
  then show ?case by simp
next
  case (Cons x xs)
  from Cons.prems(1) [of x] have e: "(g, x) \<in> set (typings H)"
    and r: "entries_good (\<lambda>d m. typed_by H x d m) (descendants_of H x) (R x)" by simp_all
  have 1: "entries_good (\<lambda>d m. typed_by H g d m) (S \<union> insert x (descendants_of H x))
             (descendants_step x (get_typing H g x) (R x) acc)"
    using tot com acyc e Cons.prems(2) r by (rule descendants_step_good)
  have 2: "\<And>y. y \<in> set xs \<Longrightarrow> (g, y) \<in> set (typings H) \<and>
               entries_good (\<lambda>d m. typed_by H y d m) (descendants_of H y) (R y)"
    using Cons.prems(1) by simp
  have 3: "S \<union> insert x (descendants_of H x) \<union> (\<Union>x\<in>set xs. insert x (descendants_of H x))
       = S \<union> (\<Union>x\<in>set (x # xs). insert x (descendants_of H x))" by auto
  from Cons.IH [OF 2 1] show ?case unfolding 3 by simp
qed

lemma entries_good_Nil: "entries_good P {} []"
  by (simp add: entries_good_def)

lemma get_ancestors_fuel_good:
  assumes tot: "typings_total H" and com: "commuting H" and acyc: "acyclic (set (typings H))"
  shows "get_ancestors_fuel n H g = Some r \<Longrightarrow>
         entries_good (\<lambda>a m. typed_by H a g m) (ancestors_of H g) r"
proof (induction n arbitrary: g r)
  case 0
  then show ?case by simp
next
  case (Suc n)
  let ?R = "\<lambda>x. the (get_ancestors_fuel n H x)"
  from Suc.prems have all: "\<forall>x\<in>set (predecessors H g). get_ancestors_fuel n H x \<noteq> None"
    and r: "r = fold (\<lambda>x s. ancestors_step x (get_typing H x g) (?R x) s) (predecessors H g) []"
    by (simp_all add: fold_opt_cases split: if_splits)
  have xs: "(x, g) \<in> set (typings H) \<and>
            entries_good (\<lambda>a m. typed_by H a x m) (ancestors_of H x) (?R x)"
    if "x \<in> set (predecessors H g)" for x
  proof -
    from that all obtain rx where rx: "get_ancestors_fuel n H x = Some rx" by auto
    from Suc.IH [OF rx] rx that show ?thesis by (simp add: predecessors_set)
  qed
  have "entries_good (\<lambda>a m. typed_by H a g m)
          ({} \<union> (\<Union>x\<in>set (predecessors H g). insert x (ancestors_of H x))) r"
    unfolding r using tot com acyc xs entries_good_Nil by (rule ancestors_fold_good)
  then show ?case using ancestors_of_unfold [of H g] by simp
qed

lemma get_descendants_fuel_good:
  assumes tot: "typings_total H" and com: "commuting H" and acyc: "acyclic (set (typings H))"
  shows "get_descendants_fuel n H g = Some r \<Longrightarrow>
         entries_good (\<lambda>d m. typed_by H g d m) (descendants_of H g) r"
proof (induction n arbitrary: g r)
  case 0
  then show ?case by simp
next
  case (Suc n)
  let ?R = "\<lambda>x. the (get_descendants_fuel n H x)"
  from Suc.prems have all: "\<forall>x\<in>set (successors H g). get_descendants_fuel n H x \<noteq> None"
    and r: "r = fold (\<lambda>x s. descendants_step x (get_typing H g x) (?R x) s) (successors H g) []"
    by (simp_all add: fold_opt_cases split: if_splits)
  have xs: "(g, x) \<in> set (typings H) \<and>
            entries_good (\<lambda>d m. typed_by H x d m) (descendants_of H x) (?R x)"
    if "x \<in> set (successors H g)" for x
  proof -
    from that all obtain rx where rx: "get_descendants_fuel n H x = Some rx" by auto
    from Suc.IH [OF rx] rx that show ?thesis by (simp add: successors_set)
  qed
  have "entries_good (\<lambda>d m. typed_by H g d m)
          ({} \<union> (\<Union>x\<in>set (successors H g). insert x (descendants_of H x))) r"
    unfolding r using tot com acyc xs entries_good_Nil by (rule descendants_fold_good)
  then show ?case using descendants_of_unfold [of H g] by simp
qed

subsection \<open>The recursion depth of an acyclic hierarchy\<close>

lemma successively_snoc:
  "successively P (xs @ [x]) \<Longrightarrow> P x g \<Longrightarrow> successively P ((xs @ [x]) @ [g])"
  by (simp add: successively_append_iff)

lemma get_ancestors_fuel_None:
  "get_ancestors_fuel n H g = None \<Longrightarrow>
   \<exists>xs. length xs = n \<and> successively (\<lambda>a b. (a, b) \<in> set (typings H)) (xs @ [g])"
proof (induction n arbitrary: g)
  case 0
  show ?case by simp
next
  case (Suc n)
  from Suc.prems obtain x where x: "x \<in> set (predecessors H g)"
    and n: "get_ancestors_fuel n H x = None"
    by (auto simp: fold_opt_cases split: if_splits)
  from Suc.IH [OF n] obtain xs where l: "length xs = n"
    and s: "successively (\<lambda>a b. (a, b) \<in> set (typings H)) (xs @ [x])" by blast
  from x have e: "(x, g) \<in> set (typings H)" by (simp add: predecessors_set)
  have "successively (\<lambda>a b. (a, b) \<in> set (typings H)) ((xs @ [x]) @ [g])"
    using s e by (rule successively_snoc)
  moreover have "length (xs @ [x]) = Suc n" using l by simp
  ultimately show ?case by blast
qed

lemma get_descendants_fuel_None:
  "get_descendants_fuel n H g = None \<Longrightarrow>
   \<exists>xs. length xs = n \<and> successively (\<lambda>a b. (a, b) \<in> set (typings H)) (g # xs)"
proof (induction n arbitrary: g)
  case 0
  show ?case by simp
next
  case (Suc n)
  from Suc.prems obtain x where x: "x \<in> set (successors H g)"
    and n: "get_descendants_fuel n H x = None"
    by (auto simp: fold_opt_cases split: if_splits)
  from Suc.IH [OF n] obtain xs where l: "length xs = n"
    and s: "successively (\<lambda>a b. (a, b) \<in> set (typings H)) (x # xs)" by blast
  from x have e: "(g, x) \<in> set (typings H)" by (simp add: successors_set)
  have "successively (\<lambda>a b. (a, b) \<in> set (typings H)) (g # x # xs)"
    using s e by simp
  moreover have "length (x # xs) = Suc n" using l by simp
  ultimately show ?case by blast
qed

lemma sorted_wrt_irrefl_distinct:
  "sorted_wrt P xs \<Longrightarrow> (\<And>x. \<not> P x x) \<Longrightarrow> distinct xs"
  by (induction xs) auto

lemma walk_distinct:
  assumes a: "acyclic r" and s: "successively (\<lambda>a b. (a, b) \<in> r) xs"
  shows "distinct xs"
proof -
  have "successively (\<lambda>a b. (a, b) \<in> r\<^sup>+) xs"
    using s by (rule successively_mono) auto
  moreover have "transp (\<lambda>a b. (a, b) \<in> r\<^sup>+)"
    by (rule transpI) (rule trancl_trans)
  ultimately have "sorted_wrt (\<lambda>a b. (a, b) \<in> r\<^sup>+) xs"
    by (simp add: successively_conv_sorted_wrt)
  moreover have "\<not> (x, x) \<in> r\<^sup>+" for x using a by (simp add: acyclic_def)
  ultimately show ?thesis by (rule sorted_wrt_irrefl_distinct)
qed

lemma walk_edges: "successively (\<lambda>a b. (a, b) \<in> r) xs \<Longrightarrow> set (zip xs (tl xs)) \<subseteq> r"
  by (induction xs rule: induct_list012) auto

lemma walk_bound:
  assumes a: "acyclic (set E)" and s: "successively (\<lambda>a b. (a, b) \<in> set E) xs"
  shows "length xs \<le> Suc (length E)"
proof -
  have "distinct xs" using a s by (rule walk_distinct)
  then have "distinct (zip xs (tl xs))" by (rule distinct_zipI1)
  then have "card (set (zip xs (tl xs))) = length (zip xs (tl xs))" by (rule distinct_card)
  moreover have "card (set (zip xs (tl xs))) \<le> card (set E)"
    using walk_edges [OF s] by (simp add: card_mono)
  moreover have "card (set E) \<le> length E" by (rule card_length)
  ultimately have "length (zip xs (tl xs)) \<le> length E" by simp
  then show ?thesis by simp
qed

lemma get_ancestors_returns:
  assumes "acyclic (set (typings H))"
  shows "\<exists>r. get_ancestors H g = Inr r \<and>
             get_ancestors_fuel (Suc (length (typing_store H))) H g = Some r"
proof (cases "get_ancestors_fuel (Suc (length (typing_store H))) H g")
  case None
  from get_ancestors_fuel_None [OF None] obtain xs
    where l: "length xs = Suc (length (typing_store H))"
      and s: "successively (\<lambda>a b. (a, b) \<in> set (typings H)) (xs @ [g])" by blast
  from walk_bound [OF assms s] l show ?thesis by (simp add: typings_def)
next
  case (Some r)
  then show ?thesis by (simp add: get_ancestors_def)
qed

lemma get_descendants_returns:
  assumes "acyclic (set (typings H))"
  shows "\<exists>r. get_descendants H g = Inr r \<and>
             get_descendants_fuel (Suc (length (typing_store H))) H g = Some r"
proof (cases "get_descendants_fuel (Suc (length (typing_store H))) H g")
  case None
  from get_descendants_fuel_None [OF None] obtain xs
    where l: "length xs = Suc (length (typing_store H))"
      and s: "successively (\<lambda>a b. (a, b) \<in> set (typings H)) (g # xs)" by blast
  from walk_bound [OF assms s] l show ?thesis by (simp add: typings_def)
next
  case (Some r)
  then show ?thesis by (simp add: get_descendants_def)
qed

lemma is_path_successively: "is_path E q \<Longrightarrow> successively (\<lambda>a b. (a, b) \<in> set E) q"
  by (induction E q rule: is_path.induct) auto

lemma is_path_enumerated:
  "is_path E q \<Longrightarrow> length q \<le> Suc n \<Longrightarrow> q \<in> set (paths_upto n E (hd q) (last q))"
proof (induction n arbitrary: q)
  case 0
  from is_path_shape [OF 0(1)] 0(2) show ?case by auto
next
  case (Suc n)
  from is_path_shape [OF Suc.prems(1)] obtain s t rest where sh: "q = s # t # rest" by blast
  with Suc.prems(1) have e: "(s, t) \<in> set E" by simp
  show ?case
  proof (cases "rest = []")
    case True
    with sh e show ?thesis by simp
  next
    case False
    with Suc.prems(1) sh have pr: "is_path E (t # rest)" by simp
    from Suc.prems(2) sh have "length (t # rest) \<le> Suc n" by simp
    from Suc.IH [OF pr this] have "t # rest \<in> set (paths_upto n E t (last (t # rest)))" by simp
    moreover have "t \<in> set (remdups (map snd (filter (\<lambda>e. fst e = s) E)))"
      using e by (auto intro: rev_image_eqI)
    ultimately have "s # t # rest \<in> set (concat (map (\<lambda>x. map (\<lambda>q. s # q)
        (paths_upto n E x (last (t # rest)))) (remdups (map snd (filter (\<lambda>e. fst e = s) E)))))"
      by auto
    with sh False show ?thesis by simp
  qed
qed

lemma is_path_ends: "is_path E q \<Longrightarrow> hd q \<in> fst ` set E \<and> last q \<in> snd ` set E"
proof (induction E q rule: is_path.induct)
  case (1 E s t rest)
  then show ?case by (cases rest) (auto intro: rev_image_eqI)
qed simp_all

lemma commutingI:
  assumes acyc: "acyclic (set (typings H))"
    and eq: "\<And>s t q q'. s \<in> set (map fst (typings H)) \<Longrightarrow> t \<in> set (map snd (typings H)) \<Longrightarrow>
       q \<in> set (paths_upto (length (typings H)) (typings H) s t) \<Longrightarrow>
       q' \<in> set (paths_upto (length (typings H)) (typings H) s t) \<Longrightarrow>
       path_typing H q = path_typing H q'"
  shows "commuting H"
  unfolding commuting_def
proof (intro allI impI)
  fix pa q
  assume a: "is_path (typings H) pa \<and> is_path (typings H) q \<and> hd pa = hd q \<and> last pa = last q"
  then have pp: "is_path (typings H) pa" and pq: "is_path (typings H) q"
    and h: "hd pa = hd q" and l: "last pa = last q" by simp_all
  have 1: "pa \<in> set (paths_upto (length (typings H)) (typings H) (hd q) (last q))"
    using is_path_enumerated [OF pp walk_bound [OF acyc is_path_successively [OF pp]]] h l
    by simp
  have 2: "q \<in> set (paths_upto (length (typings H)) (typings H) (hd q) (last q))"
    using is_path_enumerated [OF pq walk_bound [OF acyc is_path_successively [OF pq]]] .
  from is_path_ends [OF pq] have 3: "hd q \<in> set (map fst (typings H))"
    and 4: "last q \<in> set (map snd (typings H))" by simp_all
  from eq [OF 3 4 1 2] show "map_of (path_typing H pa) = map_of (path_typing H q)" by simp
qed

lemma chain_acyclic: "acyclic (set (typings chain))"
proof -
  let ?rank = "\<lambda>g. if g = ''top'' then 4 else if g = ''mid'' then 3 else if g = ''base'' then 2
                   else if g = ''low'' then 1 else (0 :: nat)"
  have "?rank b < ?rank a" if "(a, b) \<in> set (typings chain)" for a b
    using that by (auto simp: typings_def chain_def)
  then show ?thesis by (rule acyclicI_order)
qed

lemma chain_total: "typings_total chain"
  by code_simp

lemma chain_commuting: "commuting chain"
proof (rule commutingI [OF chain_acyclic])
  have "\<forall>s \<in> set (map fst (typings chain)). \<forall>t \<in> set (map snd (typings chain)).
        \<forall>q \<in> set (paths_upto (length (typings chain)) (typings chain) s t).
        \<forall>q' \<in> set (paths_upto (length (typings chain)) (typings chain) s t).
          path_typing chain q = path_typing chain q'"
    by code_simp
  then show "\<And>s t q q'. s \<in> set (map fst (typings chain)) \<Longrightarrow>
       t \<in> set (map snd (typings chain)) \<Longrightarrow>
       q \<in> set (paths_upto (length (typings chain)) (typings chain) s t) \<Longrightarrow>
       q' \<in> set (paths_upto (length (typings chain)) (typings chain) s t) \<Longrightarrow>
       path_typing chain q = path_typing chain q'" by blast
qed

definition collapsed :: "hierarchy \<Rightarrow> gid \<Rightarrow> gid \<Rightarrow> mapping \<Rightarrow> bool" where
  "collapsed H a g m \<longleftrightarrow>
     (\<exists>q. is_path (typings H) q \<and> hd q = a \<and> last q = g) \<and>
     (\<forall>q. is_path (typings H) q \<and> hd q = a \<and> last q = g
        \<longrightarrow> map_of m = map_of (path_typing H q))"

lemma typed_collapsed: "commuting H \<Longrightarrow> typed_by H a g m \<Longrightarrow> collapsed H a g m"
  unfolding typed_by_def collapsed_def commuting_def by metis

text \<open>
  C8.  In a hierarchy whose typing edges form no cycle, whose typings are total maps and whose
  paths commute, \<open>get_ancestors\<close> and \<open>get_descendants\<close> return (the recursion ends within
  the depth given to it).  The keys of the ancestors are the graphs from which \<open>g\<close> is reached
  along typing edges, the keys of the descendants are the graphs reached from \<open>g\<close>, no key is
  listed twice, and each entry is, as a map, the typing composed along every path between
  the two graphs, of which there is one.
\<close>

theorem get_ancestors_descendants_collapse:
  assumes acyc: "acyclic (set (typings H))" and com: "commuting H" and tot: "typings_total H"
  shows "\<exists>anc desc.
           get_ancestors H g = Inr anc \<and> get_descendants H g = Inr desc \<and>
           set (dict_keys anc) = ancestors_of H g \<and>
           set (dict_keys desc) = descendants_of H g \<and>
           distinct (dict_keys anc) \<and> distinct (dict_keys desc) \<and>
           (\<forall>a m. map_of anc a = Some m \<longrightarrow> collapsed H a g m) \<and>
           (\<forall>d m. map_of desc d = Some m \<longrightarrow> collapsed H g d m)"
proof -
  from get_ancestors_returns [OF acyc] obtain anc where a: "get_ancestors H g = Inr anc"
    and fa: "get_ancestors_fuel (Suc (length (typing_store H))) H g = Some anc" by blast
  from get_descendants_returns [OF acyc] obtain desc where d: "get_descendants H g = Inr desc"
    and fd: "get_descendants_fuel (Suc (length (typing_store H))) H g = Some desc" by blast
  have ga: "entries_good (\<lambda>a m. typed_by H a g m) (ancestors_of H g) anc"
    using tot com acyc fa by (rule get_ancestors_fuel_good)
  have gd: "entries_good (\<lambda>d m. typed_by H g d m) (descendants_of H g) desc"
    using tot com acyc fd by (rule get_descendants_fuel_good)
  have 1: "set (dict_keys anc) = ancestors_of H g" "distinct (dict_keys anc)"
    using ga by (simp_all add: entries_good_def)
  have 2: "set (dict_keys desc) = descendants_of H g" "distinct (dict_keys desc)"
    using gd by (simp_all add: entries_good_def)
  have 3: "\<forall>a m. map_of anc a = Some m \<longrightarrow> collapsed H a g m"
    using ga typed_collapsed [OF com] by (simp add: entries_good_def)
  have 4: "\<forall>d m. map_of desc d = Some m \<longrightarrow> collapsed H g d m"
    using gd typed_collapsed [OF com] by (simp add: entries_good_def)
  from a d 1 2 3 4 show ?thesis by blast
qed

theorem get_ancestors_descendants_collapse_witness:
  "acyclic (set (typings chain)) \<and> commuting chain \<and> typings_total chain \<and>
   get_ancestors chain ''base'' = Inr [(''mid'', [(''m'', ''g'')]), (''top'', [(''t'', ''g'')])] \<and>
   get_descendants chain ''base'' =
     Inr [(''low'', [(''g'', ''x''), (''h'', ''x'')]), (''floor'', [(''g'', ''z''), (''h'', ''z'')])] \<and>
   ancestors_of chain ''base'' = {''mid'', ''top''} \<and>
   descendants_of chain ''base'' = {''low'', ''floor''} \<and>
   collapsed chain ''top'' ''base'' [(''t'', ''g'')] \<and>
   collapsed chain ''base'' ''floor'' [(''g'', ''z''), (''h'', ''z'')]"
proof -
  let ?anc = "[(''mid'', [(''m'', ''g'')]), (''top'', [(''t'', ''g'')])]"
  let ?desc = "[(''low'', [(''g'', ''x''), (''h'', ''x'')]),
                (''floor'', [(''g'', ''z''), (''h'', ''z'')])]"
  have a: "get_ancestors chain ''base'' = Inr ?anc" by code_simp
  have d: "get_descendants chain ''base'' = Inr ?desc" by code_simp
  from get_ancestors_descendants_collapse [OF chain_acyclic chain_commuting chain_total,
      of "''base''"]
  obtain anc desc where r: "get_ancestors chain ''base'' = Inr anc"
      "get_descendants chain ''base'' = Inr desc"
    and k: "set (dict_keys anc) = ancestors_of chain ''base''"
      "set (dict_keys desc) = descendants_of chain ''base''"
    and ca: "\<forall>a m. map_of anc a = Some m \<longrightarrow> collapsed chain a ''base'' m"
    and cd: "\<forall>d m. map_of desc d = Some m \<longrightarrow> collapsed chain ''base'' d m"
    by blast
  from r a d have e: "anc = ?anc" "desc = ?desc" by simp_all
  have 1: "ancestors_of chain ''base'' = {''mid'', ''top''}"
    using k(1) unfolding e by (simp add: dict_keys_def)
  have 2: "descendants_of chain ''base'' = {''low'', ''floor''}"
    using k(2) unfolding e by (simp add: dict_keys_def)
  have "map_of ?anc ''top'' = Some [(''t'', ''g'')]" by simp
  with ca have 3: "collapsed chain ''top'' ''base'' [(''t'', ''g'')]" unfolding e by blast
  have "map_of ?desc ''floor'' = Some [(''g'', ''z''), (''h'', ''z'')]" by simp
  with cd have 4: "collapsed chain ''base'' ''floor'' [(''g'', ''z''), (''h'', ''z'')]"
    unfolding e by blast
  from chain_acyclic chain_commuting chain_total a d 1 2 3 4 show ?thesis by blast
qed

section \<open>The JSON representation\<close>

text \<open>
  Modelled from the spec: \<open>attrs_to_json\<close> and \<open>attrs_from_json\<close> of \<open>regraph.utils\<close>, not under
  \<open>src/\<close>: ``Attribute JSON is a mapping name \<open>\<rightarrow>\<close> \<open>{"type": "FiniteSet"|"IntegerSet"|\<dots>, "data": \<dots>}\<close>''.
  The attribute values of the model are finite sets, so the type is \<open>FiniteSet\<close> and the data
  are the elements.
\<close>

type_synonym attrs_json = "(string \<times> string \<times> string list) list"

definition attrs_to_json :: "attrs \<Rightarrow> attrs_json" where
  "attrs_to_json a = map (\<lambda>(k, vs). (k, ''FiniteSet'', vs)) a"

definition attrs_from_json :: "attrs_json \<Rightarrow> attrs" where
  "attrs_from_json j = map (\<lambda>(k, ty, vs). (k, vs)) j"

text \<open>
  Modelled from the spec: \<open>Graph.to_json\<close>, not under \<open>src/\<close>, writes the \<open>graph-json\<close> that
  \<open>add_graph_from_json\<close> (lines 675--693) reads: the nodes with \<open>id\<close> and \<open>attrs\<close>, the edges with
  \<open>from\<close>, \<open>to\<close> and \<open>attrs\<close>.  \<open>add_graph_from_data\<close> is abstract in \<open>Hierarchy\<close>: it adds the graph
  that has these nodes and edges.
\<close>

record graph_json =
  json_nodes :: "(node \<times> attrs_json) list"
  json_edges :: "(node \<times> node \<times> attrs_json) list"

definition graph_to_json :: "graph \<Rightarrow> graph_json" where
  "graph_to_json G =
     \<lparr> json_nodes = map (\<lambda>(n, a). (n, attrs_to_json a)) (nodes G),
       json_edges = map (\<lambda>((s, t), a). (s, t, attrs_to_json a)) (edges G) \<rparr>"

definition add_graph_from_data ::
  "hierarchy \<Rightarrow> gid \<Rightarrow> (node \<times> attrs) list \<Rightarrow> (node \<times> node \<times> attrs) list \<Rightarrow> attrs
     \<Rightarrow> error + hierarchy" where
  "add_graph_from_data H graph_id node_list edge_list graph_attrs =
     add_graph H graph_id
       \<lparr> nodes = node_list, edges = map (\<lambda>(s, t, a). ((s, t), a)) edge_list \<rparr> graph_attrs"

definition add_graph_from_json ::
  "hierarchy \<Rightarrow> gid \<Rightarrow> graph_json \<Rightarrow> attrs \<Rightarrow> error + hierarchy" where
  "add_graph_from_json H graph_id json_data graph_attrs =
     (let node_list = map (\<lambda>(n, a). (n, attrs_from_json a)) (json_nodes json_data);
          edge_list = map (\<lambda>(s, t, a). (s, t, attrs_from_json a)) (json_edges json_data)
      in add_graph_from_data H graph_id node_list edge_list graph_attrs)"

text \<open>
  The JSON of a hierarchy: three lists of entries.  An entry may come without its \<open>attrs\<close>
  key (\<open>from_json\<close> then takes the empty dictionary); \<open>to_json\<close> always writes it.
\<close>

record hierarchy_json =
  json_graphs :: "(gid \<times> graph_json \<times> attrs_json option) list"
  json_typing :: "(gid \<times> gid \<times> mapping \<times> attrs_json option) list"
  json_relations :: "(gid \<times> gid \<times> relation \<times> attrs_json option) list"

text \<open>
  \<open>to_json\<close> (lines 695--758).  \<open>rename_nodes\<close> is a dictionary, empty when the argument is
  \<open>None\<close>.  The third loop emits a relation for the first direction in which
  \<open>relations(True)\<close> lists its pair.
\<close>

definition renamed :: "(gid \<times> gid) list \<Rightarrow> gid \<Rightarrow> gid" where
  "renamed rename_nodes g = (case map_of rename_nodes g of Some g' \<Rightarrow> g' | None \<Rightarrow> g)"

definition relations_to_json ::
  "hierarchy \<Rightarrow> (gid \<times> gid) list \<Rightarrow> (gid \<times> gid \<times> relation \<times> attrs_json option) list" where
  "relations_to_json H rename_nodes =
     snd (fold (\<lambda>(u, v, a) (visited, out).
            if (u, v) \<notin> set visited \<and> (v, u) \<notin> set visited
            then (visited @ [(u, v)],
                  out @ [(renamed rename_nodes u, renamed rename_nodes v,
                          map (\<lambda>(a, b). (a, b)) (get_relation H u v), Some (attrs_to_json a))])
            else (visited, out))
          (relations_data H) ([], []))"

definition to_json :: "hierarchy \<Rightarrow> (gid \<times> gid) list \<Rightarrow> error + hierarchy_json" where
  "to_json H rename_nodes =
     then_do (map_err (\<lambda>(node, a).
                then_do (get_graph H node) (\<lambda>G.
                  Inr (renamed rename_nodes node, graph_to_json G, Some (attrs_to_json a))))
              (graphs_data H)) (\<lambda>gs.
     Inr \<lparr> json_graphs = gs,
           json_typing = map (\<lambda>(s, t, a).
              (renamed rename_nodes s, renamed rename_nodes t, get_typing H s t,
               Some (attrs_to_json a))) (typings_data H),
           json_relations = relations_to_json H rename_nodes \<rparr>)"

text \<open>
  \<open>from_json\<close> (lines 761--841).  The \<open>ignore\<close> dictionary is read by membership only: a
  missing key, and \<open>None\<close> for the whole argument, are empty collections.
\<close>

record ignore =
  ignore_graphs :: "gid list"
  ignore_typing :: "(gid \<times> gid) list"
  ignore_relations :: "(gid \<times> gid) list"

definition no_ignore :: ignore where
  "no_ignore = \<lparr> ignore_graphs = [], ignore_typing = [], ignore_relations = [] \<rparr>"

definition json_attrs :: "attrs_json option \<Rightarrow> attrs" where
  "json_attrs a = (case a of None \<Rightarrow> [] | Some j \<Rightarrow> attrs_from_json j)"

definition from_json :: "hierarchy_json \<Rightarrow> ignore \<Rightarrow> error + hierarchy" where
  "from_json json_data ign =
     then_do (fold_err (\<lambda>(graph_id, graph_data, a) H.
                if graph_id \<in> set (ignore_graphs ign) then Inr H
                else add_graph_from_json H graph_id graph_data (json_attrs a))
              (json_graphs json_data) empty_hierarchy) (\<lambda>H1.
     then_do (fold_err (\<lambda>(s, t, m, a) H.
                if (s, t) \<in> set (ignore_typing ign) then Inr H
                else add_typing H s t m (json_attrs a))
              (json_typing json_data) H1) (\<lambda>H2.
     fold_err (\<lambda>(from_g, to_g, rel, a) H.
                if (from_g, to_g) \<in> set (ignore_relations ign) \<or>
                   (to_g, from_g) \<in> set (ignore_relations ign) then Inr H
                else if (from_g, to_g) \<notin> set (relations H)
                then add_relation H from_g to_g rel (json_attrs a)
                else Inr H)
              (json_relations json_data) H2))"

text \<open>
  The invariants of a hierarchy: graph ids and typing edges are not repeated, the typing
  edges form no cycle and their paths commute, every typing is a total homomorphism between
  two graphs of the hierarchy, there is at most one relation for an unordered pair, and every
  relation relates nodes of its two graphs.
\<close>

fun unordered_distinct :: "(gid \<times> gid) list \<Rightarrow> bool" where
  "unordered_distinct [] = True"
| "unordered_distinct (e # es) =
     (e \<notin> set es \<and> (snd e, fst e) \<notin> set es \<and> unordered_distinct es)"

definition typing_valid :: "hierarchy \<Rightarrow> (gid \<times> gid) \<times> mapping \<times> attrs \<Rightarrow> bool" where
  "typing_valid H e =
     (case e of ((s, t), m, a) \<Rightarrow>
        (case (get_graph H s, get_graph H t) of
           (Inr Gs, Inr Gt) \<Rightarrow> is_homomorphism Gs Gt m True
         | _ \<Rightarrow> False))"

definition relation_valid :: "hierarchy \<Rightarrow> (gid \<times> gid) \<times> relation \<times> attrs \<Rightarrow> bool" where
  "relation_valid H e =
     (case e of ((u, v), rel, a) \<Rightarrow>
        (case (get_graph H u, get_graph H v) of
           (Inr Gu, Inr Gv) \<Rightarrow> relation_in_range Gu Gv rel
         | _ \<Rightarrow> False))"

definition well_formed :: "hierarchy \<Rightarrow> bool" where
  "well_formed H \<longleftrightarrow>
     distinct (graphs H) \<and> distinct (typings H) \<and>
     acyclic (set (typings H)) \<and> commuting H \<and>
     list_all (typing_valid H) (typing_store H) \<and>
     unordered_distinct (map fst (relation_store H)) \<and>
     list_all (relation_valid H) (relation_store H)"

text \<open>The chain with a relation between \<open>top\<close> and \<open>low\<close> and one between \<open>floor\<close> and \<open>mid\<close>.\<close>

definition related_chain :: hierarchy where
  "related_chain = chain\<lparr>relation_store :=
     [((''top'', ''low''), [(''t'', [''x''])], [(''kind'', [''a'', ''b''])]),
      ((''floor'', ''mid''), [(''z'', [''m''])], [])]\<rparr>"

section \<open>The JSON round trip\<close>

lemma attrs_round_trip: "attrs_from_json (attrs_to_json a) = a"
  by (induction a) (auto simp: attrs_from_json_def attrs_to_json_def)

lemma nodes_round_trip:
  "map (\<lambda>(n, a). (n, attrs_from_json a)) (map (\<lambda>(n, a). (n, attrs_to_json a)) ns) = ns"
  by (induction ns) (auto simp: attrs_round_trip)

lemma edges_round_trip:
  "map (\<lambda>(s, t, a). ((s, t), a))
     (map (\<lambda>(s, t, a). (s, t, attrs_from_json a))
        (map (\<lambda>((s, t), a). (s, t, attrs_to_json a)) es)) = es"
  by (induction es) (auto simp: attrs_round_trip)

lemma graph_round_trip:
  "add_graph_from_json H g (graph_to_json G) a = add_graph H g G a"
proof -
  have r: "\<lparr>nodes = nodes G, edges = edges G\<rparr> = G" by (cases G) simp
  have "add_graph_from_json H g (graph_to_json G) a =
        add_graph H g \<lparr>nodes = nodes G, edges = edges G\<rparr> a"
    by (simp add: add_graph_from_json_def add_graph_from_data_def graph_to_json_def
        nodes_round_trip edges_round_trip del: map_map)
  then show ?thesis by (simp only: r)
qed

lemma map_err_all: "(\<And>x. x \<in> set xs \<Longrightarrow> f x = Inr (h x)) \<Longrightarrow> map_err f xs = Inr (map h xs)"
  by (induction xs) simp_all

lemma map_err_map: "map_err f (map k xs) = map_err (\<lambda>x. f (k x)) xs"
  by (induction xs) (simp_all split: sum.splits)

lemma renamed_Nil [simp]: "renamed [] g = g"
  by (simp add: renamed_def)

lemma get_graph_stored:
  "distinct (graphs H) \<Longrightarrow> (g, G, a) \<in> set (graph_store H) \<Longrightarrow> get_graph H g = Inr G"
  by (simp add: graphs_def get_graph_def)

lemma get_typing_stored:
  "distinct (typings H) \<Longrightarrow> ((s, t), m, a) \<in> set (typing_store H) \<Longrightarrow> get_typing H s t = m"
  by (simp add: typings_def get_typing_def)

lemma to_json_graphs:
  assumes "distinct (graphs H)"
  shows "map_err (\<lambda>(node, a).
            then_do (get_graph H node) (\<lambda>G.
              Inr (node, graph_to_json G, Some (attrs_to_json a)))) (graphs_data H)
         = Inr (map (\<lambda>(g, G, a). (g, graph_to_json G, Some (attrs_to_json a))) (graph_store H))"
proof -
  let ?f = "\<lambda>(g, G, a). then_do (get_graph H g) (\<lambda>G.
              Inr (g, graph_to_json G, Some (attrs_to_json a)))"
  let ?h = "\<lambda>(g, G, a). (g, graph_to_json G, Some (attrs_to_json a))"
  have "?f x = Inr (?h x)" if "x \<in> set (graph_store H)" for x
  proof -
    obtain g G a where x: "x = (g, G, a)" by (cases x)
    with that assms have "get_graph H g = Inr G" by (simp add: get_graph_stored)
    with x show ?thesis by simp
  qed
  then have "map_err ?f (graph_store H) = Inr (map ?h (graph_store H))" by (rule map_err_all)
  then show ?thesis by (simp add: graphs_data_def map_err_map case_prod_unfold)
qed

lemma to_json_typing:
  assumes "distinct (typings H)"
  shows "map (\<lambda>(s, t, a). (s, t, get_typing H s t, Some (attrs_to_json a)))
           (typings_data H)
         = map (\<lambda>((s, t), m, a). (s, t, m, Some (attrs_to_json a))) (typing_store H)"
proof -
  have "get_typing H (fst (fst x)) (snd (fst x)) = fst (snd x)" if "x \<in> set (typing_store H)" for x
    using that assms get_typing_stored [of H "fst (fst x)" "snd (fst x)" "fst (snd x)" "snd (snd x)"]
    by simp
  then show ?thesis by (simp add: typings_data_def case_prod_unfold)
qed

lemma unordered_distinct_distinct: "unordered_distinct es \<Longrightarrow> distinct es"
  by (induction es) auto

lemma get_relation_stored:
  assumes "distinct (map fst (relation_store H))" and "((u, v), r, a) \<in> set (relation_store H)"
  shows "get_relation H u v = r"
  using assms by (simp add: get_relation_def)

lemma relations_fold:
  assumes "unordered_distinct (map fst es)"
    and "\<And>e. e \<in> set es \<Longrightarrow> fst e \<notin> set visited \<and> (snd (fst e), fst (fst e)) \<notin> set visited"
    and "\<And>u v r a. ((u, v), r, a) \<in> set es \<Longrightarrow> get_relation H u v = r"
  shows "fold (\<lambda>(u, v, a) (visited, out).
            if (u, v) \<notin> set visited \<and> (v, u) \<notin> set visited
            then (visited @ [(u, v)],
                  out @ [(renamed [] u, renamed [] v,
                          map (\<lambda>(a, b). (a, b)) (get_relation H u v), Some (attrs_to_json a))])
            else (visited, out))
          (concat (map (\<lambda>((u, v), r, a). [(u, v, a), (v, u, a)]) es)) (visited, out)
         = (visited @ map fst es,
            out @ map (\<lambda>((u, v), r, a). (u, v, r, Some (attrs_to_json a))) es)"
  using assms
proof (induction es arbitrary: visited out)
  case Nil
  show ?case by simp
next
  case (Cons e es)
  obtain u v r a where e: "e = ((u, v), r, a)" by (cases e) auto
  from Cons.prems(2) [of e] e have nv: "(u, v) \<notin> set visited" "(v, u) \<notin> set visited" by simp_all
  from Cons.prems(3) [of u v r a] e have g: "get_relation H u v = r" by simp
  from Cons.prems(1) e have ud: "unordered_distinct (map fst es)"
    and n1: "(u, v) \<notin> set (map fst es)" and n2: "(v, u) \<notin> set (map fst es)" by simp_all
  have 2: "fst x \<notin> set (visited @ [(u, v)]) \<and>
           (snd (fst x), fst (fst x)) \<notin> set (visited @ [(u, v)])" if "x \<in> set es" for x
  proof -
    from that Cons.prems(2) [of x]
    have "fst x \<notin> set visited" "(snd (fst x), fst (fst x)) \<notin> set visited" by simp_all
    moreover from that have "fst x \<in> set (map fst es)" by simp
    with n1 have "fst x \<noteq> (u, v)" by metis
    moreover from that n2 have "(snd (fst x), fst (fst x)) \<noteq> (u, v)"
      by (metis fst_conv image_eqI list.set_map prod.collapse snd_conv)
    ultimately show ?thesis by simp
  qed
  have 3: "\<And>u v r a. ((u, v), r, a) \<in> set es \<Longrightarrow> get_relation H u v = r"
    using Cons.prems(3) by (meson list.set_intros(2))
  have m: "map (\<lambda>(a, b). (a, b)) r = r" by (induction r) auto
  show ?case
    using nv g m Cons.IH [where visited = "visited @ [(u, v)]"
        and out = "out @ [(u, v, r, Some (attrs_to_json a))]", OF ud 2 3]
    by (simp add: e)
qed

lemma to_json_relations:
  assumes "unordered_distinct (map fst (relation_store H))"
  shows "relations_to_json H [] =
         map (\<lambda>((u, v), r, a). (u, v, r, Some (attrs_to_json a))) (relation_store H)"
proof -
  have d: "distinct (map fst (relation_store H))"
    using assms by (rule unordered_distinct_distinct)
  have 2: "\<And>e. e \<in> set (relation_store H) \<Longrightarrow>
            fst e \<notin> set [] \<and> (snd (fst e), fst (fst e)) \<notin> set []" by simp
  have 3: "\<And>u v r a. ((u, v), r, a) \<in> set (relation_store H) \<Longrightarrow> get_relation H u v = r"
    using d by (rule get_relation_stored)
  show ?thesis
    unfolding relations_to_json_def relations_data_def
    by (simp add: relations_fold [OF assms 2 3])
qed

definition json_of :: "hierarchy \<Rightarrow> hierarchy_json" where
  "json_of H =
     \<lparr> json_graphs = map (\<lambda>(g, G, a). (g, graph_to_json G, Some (attrs_to_json a))) (graph_store H),
       json_typing = map (\<lambda>((s, t), m, a). (s, t, m, Some (attrs_to_json a))) (typing_store H),
       json_relations =
         map (\<lambda>((u, v), r, a). (u, v, r, Some (attrs_to_json a))) (relation_store H) \<rparr>"

lemma to_json_value:
  assumes "well_formed H"
  shows "to_json H [] = Inr (json_of H)"
proof -
  from assms have 1: "distinct (graphs H)" and 2: "distinct (typings H)"
    and 3: "unordered_distinct (map fst (relation_store H))"
    by (simp_all add: well_formed_def)
  show ?thesis
    unfolding to_json_def json_of_def
    by (simp add: to_json_graphs [OF 1] to_json_typing [OF 2] to_json_relations [OF 3])
qed

subsection \<open>Reading the graphs back\<close>

lemma json_attrs_round_trip [simp]: "json_attrs (Some (attrs_to_json a)) = a"
  by (simp add: json_attrs_def attrs_round_trip)

lemma from_json_graphs:
  "distinct (map fst (graph_store Hc) @ map fst gs) \<Longrightarrow>
   fold_err (\<lambda>(graph_id, graph_data, a) H.
       if graph_id \<in> set (ignore_graphs no_ignore) then Inr H
       else add_graph_from_json H graph_id graph_data (json_attrs a))
     (map (\<lambda>(g, G, a). (g, graph_to_json G, Some (attrs_to_json a))) gs) Hc
   = Inr (Hc\<lparr>graph_store := graph_store Hc @ gs\<rparr>)"
proof (induction gs arbitrary: Hc)
  case Nil
  show ?case by simp
next
  case (Cons e gs)
  obtain g G a where e: "e = (g, G, a)" by (cases e)
  let ?H1 = "Hc\<lparr>graph_store := graph_store Hc @ [(g, G, a)]\<rparr>"
  from Cons.prems e have "g \<notin> set (graphs Hc)" by (simp add: graphs_def)
  then have 1: "add_graph Hc g G a = Inr ?H1" by (simp add: add_graph_def)
  from Cons.prems e have "distinct (map fst (graph_store ?H1) @ map fst gs)" by simp
  from Cons.IH [OF this] 1 show ?case
    by (simp add: e no_ignore_def graph_round_trip)
qed

subsection \<open>Reading the typings back\<close>

lemma paths_upto_sound:
  "q \<in> set (paths_upto n E s t) \<Longrightarrow> is_path E q \<and> hd q = s \<and> last q = t"
proof (induction n arbitrary: s q)
  case 0
  then show ?case by simp
next
  case (Suc n)
  from Suc.prems consider "(s, t) \<in> set E" "q = [s, t]"
    | x q' where "(s, x) \<in> set E" "q' \<in> set (paths_upto n E x t)" "q = s # q'"
    by (auto split: if_splits)
  then show ?case
  proof cases
    case 1
    then show ?thesis by simp
  next
    case 2
    from Suc.IH [OF 2(2)] have p: "is_path E q'" and h: "hd q' = x" and l: "last q' = t"
      by simp_all
    from is_path_shape [OF p] obtain a b rest where sh: "q' = a # b # rest" by blast
    with h have "a = x" by simp
    with 2 p l sh show ?thesis by simp
  qed
qed

lemma is_path_trancl: "is_path E q \<Longrightarrow> (hd q, last q) \<in> (set E)\<^sup>+"
proof (induction E q rule: is_path.induct)
  case (1 E s t rest)
  show ?case
  proof (cases "rest = []")
    case True
    with 1(2) show ?thesis by auto
  next
    case False
    with 1 have "(t, last (t # rest)) \<in> (set E)\<^sup>+" by simp
    moreover from 1(2) have "(s, t) \<in> set E" by simp
    ultimately show ?thesis using False by (simp add: trancl_into_trancl2)
  qed
qed simp_all

lemma is_path_mono: "is_path E q \<Longrightarrow> set E \<subseteq> set E' \<Longrightarrow> is_path E' q"
  by (induction E q rule: is_path.induct) auto

lemma compose_along_agree:
  assumes "\<And>x y. (x, y) \<in> set E \<Longrightarrow> get_typing H1 x y = get_typing H2 x y"
  shows "successively (\<lambda>a b. (a, b) \<in> set E) (s # rest) \<Longrightarrow>
         compose_along H1 hom s rest = compose_along H2 hom s rest"
proof (induction rest arbitrary: hom s)
  case Nil
  show ?case by simp
next
  case (Cons t rest)
  from Cons.prems have e: "(s, t) \<in> set E"
    and r: "successively (\<lambda>a b. (a, b) \<in> set E) (t # rest)" by simp_all
  from Cons.IH [OF r] assms [OF e] show ?case by simp
qed

lemma path_typing_agree:
  assumes a: "\<And>x y. (x, y) \<in> set E \<Longrightarrow> get_typing H1 x y = get_typing H2 x y"
    and q: "is_path E q"
  shows "path_typing H1 q = path_typing H2 q"
proof -
  from is_path_shape [OF q] obtain s t rest where sh: "q = s # t # rest" by blast
  from is_path_successively [OF q] sh have e: "(s, t) \<in> set E"
    and r: "successively (\<lambda>a b. (a, b) \<in> set E) (t # rest)" by simp_all
  from compose_along_agree [of E H1 H2, OF a r] a [OF e] sh show ?thesis by simp
qed

lemma get_typing_prefix:
  assumes "typing_store H = typing_store Hc @ post" and "(x, y) \<in> set (typings Hc)"
  shows "get_typing Hc x y = get_typing H x y"
proof -
  from assms(2) obtain v where "map_of (typing_store Hc) (x, y) = Some v"
    by (cases "map_of (typing_store Hc) (x, y)") (auto simp: typings_def map_of_eq_None_iff)
  then show ?thesis using assms(1) by (simp add: get_typing_def map_add_def)
qed

lemma get_graph_same: "graph_store Hc = graph_store H \<Longrightarrow> get_graph Hc g = get_graph H g"
  by (simp add: get_graph_def)

lemma add_typing_prefix:
  assumes wf: "well_formed H" and gs: "graph_store Hc = graph_store H"
    and ts: "typing_store H = typing_store Hc @ ((s, t), m, a) # post"
  shows "add_typing Hc s t m a = Inr (Hc\<lparr>typing_store := typing_store Hc @ [((s, t), m, a)]\<rparr>)"
proof -
  from wf have dt: "distinct (typings H)" and acyc: "acyclic (set (typings H))"
    and com: "commuting H" and tv: "list_all (typing_valid H) (typing_store H)"
    by (simp_all add: well_formed_def)
  have mem: "((s, t), m, a) \<in> set (typing_store H)" using ts by simp
  then have e: "(s, t) \<in> set (typings H)" by (force simp: typings_def)
  have sub: "set (typings Hc) \<subseteq> set (typings H)" using ts by (auto simp: typings_def)
  from tv mem have "typing_valid H ((s, t), m, a)" by (simp add: list_all_iff)
  then obtain Gs Gt where g1: "get_graph H s = Inr Gs" and g2: "get_graph H t = Inr Gt"
    and hom: "is_homomorphism Gs Gt m True"
    by (auto simp: typing_valid_def split: sum.splits)
  have c1: "get_graph Hc s = Inr Gs" "get_graph Hc t = Inr Gt"
    using g1 g2 get_graph_same [OF gs] by simp_all
  have c2: "(s, t) \<notin> set (typings Hc)" using dt ts by (simp add: typings_def)
  have ne: "s \<noteq> t"
  proof
    assume "s = t"
    with e have "(s, s) \<in> (set (typings H))\<^sup>+" by auto
    with acyc show False by (simp add: acyclic_def)
  qed
  have np: "paths_upto (length (typing_store Hc)) (typings Hc) t s = []"
  proof (rule ccontr)
    assume "paths_upto (length (typing_store Hc)) (typings Hc) t s \<noteq> []"
    then obtain q where "q \<in> set (paths_upto (length (typing_store Hc)) (typings Hc) t s)"
      by (cases "paths_upto (length (typing_store Hc)) (typings Hc) t s") auto
    from paths_upto_sound [OF this] have "is_path (typings Hc) q" "hd q = t" "last q = s"
      by simp_all
    with is_path_trancl [OF is_path_mono [OF _ sub]] have "(t, s) \<in> (set (typings H))\<^sup>+"
      by metis
    with e have "(s, s) \<in> (set (typings H))\<^sup>+" by (rule trancl_into_trancl2)
    with acyc show False by (simp add: acyclic_def)
  qed
  have c3: "\<not> closes_cycle Hc s t" using ne np by (simp add: closes_cycle_def)
  have gt: "get_typing H s t = m" using dt mem by (rule get_typing_stored)
  have c4: "paths_commute Hc s t Gs m"
    unfolding paths_commute_def list_all_iff
  proof
    fix q assume "q \<in> set (paths_upto (length (typing_store Hc)) (typings Hc) s t)"
    from paths_upto_sound [OF this] have pq: "is_path (typings Hc) q"
      and h: "hd q = s" and l: "last q = t" by simp_all
    have ag: "\<And>x y. (x, y) \<in> set (typings Hc) \<Longrightarrow> get_typing Hc x y = get_typing H x y"
      using ts by (rule get_typing_prefix)
    have eq: "path_typing Hc q = path_typing H q" using ag pq by (rule path_typing_agree)
    have 1: "is_path (typings H) q" using pq sub by (rule is_path_mono)
    have 2: "is_path (typings H) [s, t]" using e by simp
    from com 1 2 h l have "map_of (path_typing H q) = map_of (path_typing H [s, t])"
      unfolding commuting_def by (metis last.simps list.sel(1) list.discI)
    with gt eq have "map_of (path_typing Hc q) = map_of m" by simp
    then show "agrees_on (node_ids Gs) (path_typing Hc q) m"
      by (simp add: agrees_on_def list_all_iff)
  qed
  show ?thesis
    unfolding add_typing_def using c1 c2 hom c3 c4 by simp
qed

lemma from_json_typing:
  assumes wf: "well_formed H"
  shows "graph_store Hc = graph_store H \<Longrightarrow> typing_store H = typing_store Hc @ ts \<Longrightarrow>
   fold_err (\<lambda>(s, t, m, a) H.
       if (s, t) \<in> set (ignore_typing no_ignore) then Inr H
       else add_typing H s t m (json_attrs a))
     (map (\<lambda>((s, t), m, a). (s, t, m, Some (attrs_to_json a))) ts) Hc
   = Inr (Hc\<lparr>typing_store := typing_store Hc @ ts\<rparr>)"
proof (induction ts arbitrary: Hc)
  case Nil
  show ?case by simp
next
  case (Cons e ts)
  obtain s t m a where e: "e = ((s, t), m, a)" by (cases e) auto
  let ?H1 = "Hc\<lparr>typing_store := typing_store Hc @ [((s, t), m, a)]\<rparr>"
  have 1: "add_typing Hc s t m a = Inr ?H1"
    using wf Cons.prems(1) Cons.prems(2) [unfolded e] by (rule add_typing_prefix)
  have 2: "graph_store ?H1 = graph_store H" using Cons.prems(1) by simp
  have 3: "typing_store H = typing_store ?H1 @ ts" using Cons.prems(2) e by simp
  from Cons.IH [OF 2 3] 1 show ?case by (simp add: e no_ignore_def)
qed

subsection \<open>Reading the relations back\<close>

lemma unordered_distinct_before:
  "unordered_distinct (xs @ e # ys) \<Longrightarrow> e \<notin> set xs \<and> (snd e, fst e) \<notin> set xs"
proof (induction xs)
  case Nil
  show ?case by simp
next
  case (Cons x xs)
  from Cons.prems have "x \<noteq> e" and "(snd x, fst x) \<noteq> e" by auto
  then have "x \<noteq> e" and "x \<noteq> (snd e, fst e)" by auto
  with Cons show ?case by simp
qed

lemma relations_set:
  "set (relations H) =
     set (map fst (relation_store H)) \<union> (\<lambda>e. (snd e, fst e)) ` set (map fst (relation_store H))"
  by (force simp: relations_def)

lemma add_relation_prefix:
  assumes wf: "well_formed H" and gs: "graph_store Hc = graph_store H"
    and rs: "relation_store H = relation_store Hc @ ((u, v), r, a) # post"
  shows "(u, v) \<notin> set (relations Hc)"
    and "add_relation Hc u v r a =
         Inr (Hc\<lparr>relation_store := relation_store Hc @ [((u, v), r, a)]\<rparr>)"
proof -
  from wf have ud: "unordered_distinct (map fst (relation_store H))"
    and rv: "list_all (relation_valid H) (relation_store H)"
    by (simp_all add: well_formed_def)
  from ud rs have "unordered_distinct (map fst (relation_store Hc) @ (u, v) # map fst post)"
    by simp
  from unordered_distinct_before [OF this]
  have n1: "(u, v) \<notin> set (map fst (relation_store Hc))"
    and n2: "(v, u) \<notin> set (map fst (relation_store Hc))" by simp_all
  show c: "(u, v) \<notin> set (relations Hc)"
  proof
    assume "(u, v) \<in> set (relations Hc)"
    then consider "(u, v) \<in> set (map fst (relation_store Hc))"
      | e where "e \<in> set (map fst (relation_store Hc))" "(u, v) = (snd e, fst e)"
      unfolding relations_set by blast
    then show False
    proof cases
      case 1
      with n1 show False by simp
    next
      case 2
      from 2(2) have "e = (v, u)" by (metis prod.collapse prod.inject)
      with 2(1) n2 show False by simp
    qed
  qed
  have "((u, v), r, a) \<in> set (relation_store H)" using rs by simp
  with rv have "relation_valid H ((u, v), r, a)" by (simp add: list_all_iff)
  then obtain Gu Gv where "get_graph H u = Inr Gu" "get_graph H v = Inr Gv"
    and rng: "relation_in_range Gu Gv r"
    by (auto simp: relation_valid_def split: sum.splits)
  then have "get_graph Hc u = Inr Gu" "get_graph Hc v = Inr Gv"
    using get_graph_same [OF gs] by simp_all
  then show "add_relation Hc u v r a =
         Inr (Hc\<lparr>relation_store := relation_store Hc @ [((u, v), r, a)]\<rparr>)"
    unfolding add_relation_def using c rng by simp
qed

lemma from_json_relations:
  assumes wf: "well_formed H"
  shows "graph_store Hc = graph_store H \<Longrightarrow> relation_store H = relation_store Hc @ rs \<Longrightarrow>
   fold_err (\<lambda>(from_g, to_g, rel, a) H.
       if (from_g, to_g) \<in> set (ignore_relations no_ignore) \<or>
          (to_g, from_g) \<in> set (ignore_relations no_ignore) then Inr H
       else if (from_g, to_g) \<notin> set (relations H)
       then add_relation H from_g to_g rel (json_attrs a)
       else Inr H)
     (map (\<lambda>((u, v), r, a). (u, v, r, Some (attrs_to_json a))) rs) Hc
   = Inr (Hc\<lparr>relation_store := relation_store Hc @ rs\<rparr>)"
proof (induction rs arbitrary: Hc)
  case Nil
  show ?case by simp
next
  case (Cons e rs)
  obtain u v r a where e: "e = ((u, v), r, a)" by (cases e) auto
  let ?H1 = "Hc\<lparr>relation_store := relation_store Hc @ [((u, v), r, a)]\<rparr>"
  have 0: "(u, v) \<notin> set (relations Hc)"
    using wf Cons.prems(1) Cons.prems(2) [unfolded e] by (rule add_relation_prefix)
  have 1: "add_relation Hc u v r a = Inr ?H1"
    using wf Cons.prems(1) Cons.prems(2) [unfolded e] by (rule add_relation_prefix)
  have 2: "graph_store ?H1 = graph_store H" using Cons.prems(1) by simp
  have 3: "relation_store H = relation_store ?H1 @ rs" using Cons.prems(2) e by simp
  from Cons.IH [OF 2 3] 0 1 show ?case by (simp add: e no_ignore_def)
qed

lemma from_json_value:
  assumes wf: "well_formed H"
  shows "from_json (json_of H) no_ignore = Inr H"
proof -
  let ?H1 = "empty_hierarchy\<lparr>graph_store := graph_store empty_hierarchy @ graph_store H\<rparr>"
  let ?H2 = "?H1\<lparr>typing_store := typing_store ?H1 @ typing_store H\<rparr>"
  let ?H3 = "?H2\<lparr>relation_store := relation_store ?H2 @ relation_store H\<rparr>"
  from wf have d: "distinct (graphs H)" by (simp add: well_formed_def)
  then have d0: "distinct (map fst (graph_store empty_hierarchy) @ map fst (graph_store H))"
    by (simp add: empty_hierarchy_def graphs_def)
  have g1: "graph_store ?H1 = graph_store H" by (simp add: empty_hierarchy_def)
  have t1: "typing_store H = typing_store ?H1 @ typing_store H" by (simp add: empty_hierarchy_def)
  have g2: "graph_store ?H2 = graph_store H" by (simp add: empty_hierarchy_def)
  have r2: "relation_store H = relation_store ?H2 @ relation_store H"
    by (simp add: empty_hierarchy_def)
  have eq: "?H3 = H" by (cases H) (simp add: empty_hierarchy_def)
  show ?thesis
    unfolding from_json_def json_of_def
    using from_json_graphs [OF d0] from_json_typing [OF wf g1 t1]
      from_json_relations [OF wf g2 r2] eq
    by simp
qed

text \<open>
  C1.  For a hierarchy that satisfies the invariants, \<open>to_json\<close> without renaming returns the
  JSON that lists every graph, every typing edge and every relation once, in the stored
  direction, and \<open>from_json\<close> with nothing ignored builds from it the hierarchy itself: the
  same graphs with their attributes, the same typings with their mappings and attributes,
  the same relations with their attributes.  No \<open>add_typing\<close> or \<open>add_relation\<close> of the
  replay is refused.
\<close>

theorem json_round_trip:
  assumes "well_formed H"
  shows "to_json H [] = Inr (json_of H) \<and> from_json (json_of H) no_ignore = Inr H"
  using to_json_value [OF assms] from_json_value [OF assms] by simp

lemma related_chain_well_formed: "well_formed related_chain"
proof -
  have t: "typings related_chain = typings chain"
    by (simp add: related_chain_def typings_def)
  have 1: "distinct (graphs related_chain)" by code_simp
  have 2: "distinct (typings related_chain)" by code_simp
  have 3: "acyclic (set (typings related_chain))" unfolding t by (rule chain_acyclic)
  have 4: "commuting related_chain"
  proof (rule commutingI [OF 3])
    have "\<forall>s \<in> set (map fst (typings related_chain)).
          \<forall>t \<in> set (map snd (typings related_chain)).
          \<forall>q \<in> set (paths_upto (length (typings related_chain)) (typings related_chain) s t).
          \<forall>q' \<in> set (paths_upto (length (typings related_chain)) (typings related_chain) s t).
            path_typing related_chain q = path_typing related_chain q'"
      by code_simp
    then show "\<And>s t q q'. s \<in> set (map fst (typings related_chain)) \<Longrightarrow>
         t \<in> set (map snd (typings related_chain)) \<Longrightarrow>
         q \<in> set (paths_upto (length (typings related_chain)) (typings related_chain) s t) \<Longrightarrow>
         q' \<in> set (paths_upto (length (typings related_chain)) (typings related_chain) s t) \<Longrightarrow>
         path_typing related_chain q = path_typing related_chain q'" by blast
  qed
  have 5: "list_all (typing_valid related_chain) (typing_store related_chain)" by code_simp
  have 6: "unordered_distinct (map fst (relation_store related_chain))" by code_simp
  have 7: "list_all (relation_valid related_chain) (relation_store related_chain)" by code_simp
  from 1 2 3 4 5 6 7 show ?thesis unfolding well_formed_def by blast
qed

theorem json_round_trip_witness:
  "well_formed related_chain \<and>
   to_json related_chain [] = Inr (json_of related_chain) \<and>
   map (\<lambda>(u, v, r, a). (u, v)) (json_relations (json_of related_chain)) =
     [(''top'', ''low''), (''floor'', ''mid'')] \<and>
   from_json (json_of related_chain) no_ignore = Inr related_chain"
proof -
  have "map (\<lambda>(u, v, r, a). (u, v)) (json_relations (json_of related_chain)) =
     [(''top'', ''low''), (''floor'', ''mid'')]" by code_simp
  with json_round_trip [OF related_chain_well_formed] related_chain_well_formed
  show ?thesis by simp
qed

end
